theory Spec2Isabelle
  imports Main
begin

text \<open>
  The program polls the titles of the open windows, derives a project name from each
  title of a tracked application, keeps one active session per project while the project
  is seen, closes the session when the project is no longer seen, and keeps a log file
  per project that it rewrites at every close and reads back when it starts. This
  theory embeds \<open>window_tracker.py\<close> function by function, with the behaviour of the
  library calls it relies on (\<open>re\<close>, \<open>csv\<close>, \<open>datetime\<close>, text files), and proves properties
  of the classification, of the polling loop and of the log files.
\<close>

section \<open>Python strings\<close>

text \<open>
  A Python \<open>str\<close> is a sequence of Unicode code points. The window titles handled by the
  tracker contain the en dash (U+2013) and the em dash (U+2014), which are not 8-bit
  characters, so a string is modelled as the list of its code points; \<open>ustr\<close> turns an
  ASCII literal into such a list.
\<close>

type_synonym uchar = nat
type_synonym ustring = "nat list"

definition ustr :: "string \<Rightarrow> ustring" where
  "ustr s = map of_char s"

text \<open>
  \<open>str.isspace\<close> for one code point; the same set is what \<open>\s\<close> matches in a \<open>str\<close>
  pattern and what \<open>str.strip()\<close> removes.
\<close>

definition isspace :: "uchar \<Rightarrow> bool" where
  "isspace c \<longleftrightarrow>
     (9 \<le> c \<and> c \<le> 13) \<or> (28 \<le> c \<and> c \<le> 32) \<or> c = 133 \<or> c = 160 \<or> c = 5760 \<or>
     (8192 \<le> c \<and> c \<le> 8202) \<or> c = 8232 \<or> c = 8233 \<or> c = 8239 \<or> c = 8287 \<or> c = 12288"

definition lstrip :: "ustring \<Rightarrow> ustring" where
  "lstrip s = dropWhile isspace s"

definition rstrip :: "ustring \<Rightarrow> ustring" where
  "rstrip s = rev (dropWhile isspace (rev s))"

definition strip :: "ustring \<Rightarrow> ustring" where
  "strip s = rstrip (lstrip s)"

text \<open>\<open>s.lstrip(chars)\<close>: drop the leading code points that occur in \<open>chars\<close>.\<close>

definition lstrip_chars :: "ustring \<Rightarrow> ustring \<Rightarrow> ustring" where
  "lstrip_chars chars s = dropWhile (\<lambda>c. c \<in> set chars) s"

section \<open>Title classification (\<open>extract_project_name\<close>)\<close>

text \<open>The character class \<open>[-\<dots>]\<close> of the pattern: hyphen-minus, en dash, em dash.\<close>

definition is_dash :: "uchar \<Rightarrow> bool" where
  "is_dash c \<longleftrightarrow> c = 45 \<or> c = 8211 \<or> c = 8212"

text \<open>
  \<open>sep_ahead s\<close>: the pattern tail \<open>\s*[-\<dots>]\<close> matches at the start of \<open>s\<close>. A dash is no
  whitespace, so the greedy \<open>\s*\<close> has exactly one way to succeed: skip the whole run of
  whitespace and find a dash right after it. (The final \<open>\s*\<close> of the pattern always
  matches and does not influence group 1.)
\<close>

fun sep_ahead :: "ustring \<Rightarrow> bool" where
  "sep_ahead [] = False"
| "sep_ahead (c # cs) = (if is_dash c then True else if isspace c then sep_ahead cs else False)"

text \<open>
  \<open>lazy_group acc s\<close>: group 1 of \<open>re.search(r'^(.+?)\s*[-\<dots>]\s*', title)\<close>, where \<open>acc\<close>
  is what \<open>.+?\<close> has consumed so far. The anchor \<open>^\<close> (no MULTILINE flag) fixes the start of
  the match at index 0. The lazy \<open>.+?\<close> takes one code point, tries the rest of the
  pattern, and takes one more whenever the rest fails; \<open>.\<close> (no DOTALL flag) does not
  match the line feed, so the search fails as soon as \<open>.+?\<close> would have to consume one.
\<close>

fun lazy_group :: "ustring \<Rightarrow> ustring \<Rightarrow> ustring option" where
  "lazy_group acc [] = None"
| "lazy_group acc (c # cs) =
     (if c = 10 then None
      else if sep_ahead cs then Some (acc @ [c])
      else lazy_group (acc @ [c]) cs)"

definition re_search_group1 :: "ustring \<Rightarrow> ustring option" where
  "re_search_group1 window_title = lazy_group [] window_title"

text \<open>\<open>re.sub(r'[<>:"/\\|?*]', '_', s)\<close>\<close>

definition illegal_chars :: "uchar set" where
  "illegal_chars = {60, 62, 58, 34, 47, 92, 124, 63, 42}"

definition re_sub_illegal :: "ustring \<Rightarrow> ustring" where
  "re_sub_illegal s = map (\<lambda>c. if c \<in> illegal_chars then 95 else c) s"

text \<open>The project name before the length check of the last step.\<close>

definition project_name_sanitized :: "ustring \<Rightarrow> ustring" where
  "project_name_sanitized window_title =
     (let project_name =
            (case re_search_group1 window_title of
               Some g \<Rightarrow> strip g
             | None \<Rightarrow> take 50 window_title)
      in re_sub_illegal (lstrip_chars (ustr ''* '') project_name))"

definition extract_project_name :: "ustring \<Rightarrow> ustring" where
  "extract_project_name window_title =
     (let project_name = project_name_sanitized window_title
      in if length project_name < 2 then ustr ''Unnamed_Project'' else project_name)"

section \<open>Application filter (\<open>get_app_name_from_title\<close>)\<close>

text \<open>
  \<open>str.lower()\<close> is modelled on the ASCII letters; Python also lowers the cased letters
  beyond ASCII. The keyword table and the allow-list are ASCII, and every statement below
  treats the filter as a predicate on titles, so nothing depends on that restriction.
\<close>

definition lower :: "ustring \<Rightarrow> ustring" where
  "lower s = map (\<lambda>c. if 65 \<le> c \<and> c \<le> 90 then c + 32 else c) s"

text \<open>\<open>k in s\<close> for strings: \<open>k\<close> occurs in \<open>s\<close> as a contiguous substring.\<close>

fun py_in :: "ustring \<Rightarrow> ustring \<Rightarrow> bool" where
  "py_in k [] = (k = [])"
| "py_in k (c # cs) = (take (length k) (c # cs) = k \<or> py_in k cs)"

text \<open>The dictionary \<open>app_keywords\<close>, in insertion order (the order \<open>items()\<close> yields).\<close>

definition app_keywords :: "(ustring \<times> ustring) list" where
  "app_keywords =
     [(ustr ''blender'', ustr ''Blender''), (ustr ''archicad'', ustr ''ArchiCAD''),
      (ustr ''revit'', ustr ''Revit''), (ustr ''autocad'', ustr ''AutoCAD''),
      (ustr ''sketchup'', ustr ''SketchUp''), (ustr ''rhino'', ustr ''Rhino''),
      (ustr ''3ds max'', ustr ''3dsMax''), (ustr ''lumion'', ustr ''Lumion''),
      (ustr ''enscape'', ustr ''Enscape''), (ustr ''photoshop'', ustr ''Photoshop''),
      (ustr ''illustrator'', ustr ''Illustrator''), (ustr ''chrome'', ustr ''Chrome''),
      (ustr ''firefox'', ustr ''Firefox''), (ustr ''excel'', ustr ''Excel''),
      (ustr ''word'', ustr ''Word''), (ustr ''powerpoint'', ustr ''PowerPoint'')]"

fun first_keyword :: "(ustring \<times> ustring) list \<Rightarrow> ustring \<Rightarrow> ustring option" where
  "first_keyword [] title_lower = None"
| "first_keyword ((keyword, app_name) # kws) title_lower =
     (if py_in keyword title_lower then Some app_name else first_keyword kws title_lower)"

text \<open>
  \<open>window_title.split(' - ')\<close>: the separator is searched from the left and the search
  resumes after each occurrence; \<open>cur\<close> is the part collected so far.
\<close>

fun split_sp_dash_sp :: "ustring \<Rightarrow> ustring \<Rightarrow> ustring list" where
  "split_sp_dash_sp cur (a # b # c # rest) =
     (if a = 32 \<and> b = 45 \<and> c = 32 then cur # split_sp_dash_sp [] rest
      else split_sp_dash_sp (cur @ [a]) (b # c # rest))"
| "split_sp_dash_sp cur (a # rest) = split_sp_dash_sp (cur @ [a]) rest"
| "split_sp_dash_sp cur [] = [cur]"

definition get_app_name_from_title :: "ustring \<Rightarrow> ustring" where
  "get_app_name_from_title window_title =
     (case first_keyword app_keywords (lower window_title) of
        Some app_name \<Rightarrow> app_name
      | None \<Rightarrow>
          (let parts = split_sp_dash_sp [] window_title
           in if length parts > 1 then take 30 (last parts) else ustr ''Unknown_App''))"

text \<open>The set literal of \<open>run\<close>: the applications whose windows are tracked.\<close>

definition tracked_apps :: "ustring set" where
  "tracked_apps =
     {ustr ''blender'', ustr ''archicad'', ustr ''revit'', ustr ''autocad'', ustr ''sketchup'',
      ustr ''rhino'', ustr ''3dsmax'', ustr ''lumion'', ustr ''enscape'', ustr ''photoshop'',
      ustr ''illustrator'', ustr ''vectorworks''}"

definition is_tracked :: "ustring \<Rightarrow> bool" where
  "is_tracked wtitle \<longleftrightarrow> lower (get_app_name_from_title wtitle) \<in> tracked_apps"

section \<open>Clock values\<close>

text \<open>
  \<open>datetime.now()\<close> returns a naive local time. The clock is an input of the model: every
  function that reads it takes the value read as the argument \<open>now\<close>. Readings that follow
  each other within one call or one polling cycle are taken to be the same value (closing
  a session reads the clock for the end of the session and again, in \<open>save_session_log\<close>,
  for the time of the last change).
\<close>

record datetime =
  year :: nat
  month :: nat
  day :: nat
  hour :: nat
  minute :: nat
  second :: nat
  microsecond :: nat

text \<open>Decimal digits of a natural number, and \<open>str(i)\<close> for an integer.\<close>

fun dec :: "nat \<Rightarrow> ustring" where
  "dec n = (if n < 10 then [48 + n] else dec (n div 10) @ [48 + n mod 10])"

definition py_str_int :: "int \<Rightarrow> ustring" where
  "py_str_int i = (if i < 0 then 45 # dec (nat (- i)) else dec (nat i))"

definition zfill :: "nat \<Rightarrow> ustring \<Rightarrow> ustring" where
  "zfill w s = replicate (w - length s) 48 @ s"

text \<open>
  \<open>strftime('%Y-%m-%d %H:%M:%S')\<close>, every field padded with zeros to its width (how a
  year below 1000 is padded depends on the platform; the clock never reads one).
\<close>

definition strftime :: "datetime \<Rightarrow> ustring" where
  "strftime t =
     zfill 4 (dec (year t)) @ [45] @ zfill 2 (dec (month t)) @ [45] @ zfill 2 (dec (day t)) @
     [32] @ zfill 2 (dec (hour t)) @ [58] @ zfill 2 (dec (minute t)) @ [58] @
     zfill 2 (dec (second t))"

text \<open>
  The difference of two datetimes is the difference of their positions on the proleptic
  Gregorian time line, counted here in microseconds (\<open>ymd2ord\<close> is the day number the
  datetime module uses).
\<close>

definition is_leap :: "nat \<Rightarrow> bool" where
  "is_leap y \<longleftrightarrow> y mod 4 = 0 \<and> (y mod 100 \<noteq> 0 \<or> y mod 400 = 0)"

definition days_before_year :: "nat \<Rightarrow> nat" where
  "days_before_year y = (y - 1) * 365 + (y - 1) div 4 - (y - 1) div 100 + (y - 1) div 400"

definition days_before_month :: "nat \<Rightarrow> nat \<Rightarrow> nat" where
  "days_before_month y m =
     (if 1 \<le> m \<and> m \<le> 12
      then [0, 31, 59, 90, 120, 151, 181, 212, 243, 273, 304, 334] ! (m - 1) +
           (if m > 2 \<and> is_leap y then 1 else 0)
      else 0)"

definition ymd2ord :: "nat \<Rightarrow> nat \<Rightarrow> nat \<Rightarrow> nat" where
  "ymd2ord y m d = days_before_year y + days_before_month y m + d"

definition to_microseconds :: "datetime \<Rightarrow> int" where
  "to_microseconds t =
     int ((((ymd2ord (year t) (month t) (day t) * 24 + hour t) * 60 + minute t) * 60 + second t)
          * 1000000 + microsecond t)"

text \<open>
  \<open>int((end_time - start).total_seconds())\<close>: the whole seconds of the difference,
  truncated towards zero. \<open>total_seconds()\<close> is a float; it is exact to well below one
  microsecond for differences of less than two centuries, which is taken for granted here.
\<close>

definition elapsed_seconds :: "datetime \<Rightarrow> datetime \<Rightarrow> int" where
  "elapsed_seconds end_time start_time =
     (let us = to_microseconds end_time - to_microseconds start_time
      in if us \<ge> 0 then us div 1000000 else - ((- us) div 1000000))"

section \<open>Integers in text (\<open>int(row[2])\<close>)\<close>

text \<open>
  \<open>int(s)\<close> for a string: surrounding whitespace is ignored, one sign is allowed, then
  decimal digits, where single underscores may separate digits. \<open>None\<close> stands for the
  \<open>ValueError\<close>. Only the ASCII digits are modelled (Python accepts every Unicode decimal
  digit), and the limit on the number of digits of recent Python versions is left out.
\<close>

definition is_digit :: "uchar \<Rightarrow> bool" where
  "is_digit c \<longleftrightarrow> 48 \<le> c \<and> c \<le> 57"

fun parse_digits :: "nat \<Rightarrow> ustring \<Rightarrow> nat option" where
  "parse_digits acc [] = Some acc"
| "parse_digits acc (c # cs) =
     (if is_digit c then parse_digits (10 * acc + (c - 48)) cs
      else if c = 95 then
        (case cs of
           [] \<Rightarrow> None
         | d # _ \<Rightarrow> if is_digit d then parse_digits acc cs else None)
      else None)"

definition parse_unsigned :: "ustring \<Rightarrow> nat option" where
  "parse_unsigned s =
     (case s of [] \<Rightarrow> None | c # _ \<Rightarrow> if is_digit c then parse_digits 0 s else None)"

definition py_int :: "ustring \<Rightarrow> int option" where
  "py_int s =
     (case strip s of
        [] \<Rightarrow> None
      | c # cs \<Rightarrow>
          if c = 45 then map_option (\<lambda>n. - int n) (parse_unsigned cs)
          else if c = 43 then map_option int (parse_unsigned cs)
          else map_option int (parse_unsigned (c # cs)))"

section \<open>The csv module, as the tracker uses it\<close>

text \<open>
  Both \<open>csv.writer\<close> and \<open>csv.reader\<close> are used with the default dialect: delimiter
  comma, quote character \<open>"\<close> doubled inside quoted fields, minimal quoting, no escape
  character, line terminator CR LF, not strict.
\<close>

subsection \<open>Writer\<close>

definition needs_quotes :: "ustring \<Rightarrow> bool" where
  "needs_quotes f \<longleftrightarrow> (\<exists>c\<in>set f. c = 44 \<or> c = 34 \<or> c = 10 \<or> c = 13)"

definition csv_field :: "ustring \<Rightarrow> ustring" where
  "csv_field f =
     (if needs_quotes f
      then [34] @ concat (map (\<lambda>c. if c = 34 then [34, 34] else [c]) f) @ [34]
      else f)"

fun csv_join :: "ustring list \<Rightarrow> ustring" where
  "csv_join [] = []"
| "csv_join [f] = csv_field f"
| "csv_join (f # g # fs) = csv_field f @ [44] @ csv_join (g # fs)"

text \<open>\<open>writer.writerow(fields)\<close>; a row that is one empty field is written as \<open>""\<close>.\<close>

definition writerow :: "ustring list \<Rightarrow> ustring" where
  "writerow fs = (if fs = [[]] then [34, 34] else csv_join fs) @ [13, 10]"

subsection \<open>Reader\<close>

text \<open>
  The reader is the state machine of the C module. The states that are entered only
  through an escape character are left out, because the dialect has none. A field that
  would grow beyond \<open>field_limit\<close> raises \<open>csv.Error\<close>. The record \<open>reader\<close> holds
  the parser state, the field being collected and the fields of the record so far.
\<close>

datatype parser_state =
  START_RECORD | START_FIELD | IN_FIELD | IN_QUOTED_FIELD | QUOTE_IN_QUOTED_FIELD | EAT_CRNL

datatype csv_error = FieldLimit | NewlineInUnquotedField

record reader =
  state :: parser_state
  field :: ustring
  field_list :: "ustring list"

definition field_limit :: nat where
  "field_limit = 131072"

definition parse_reset :: reader where
  "parse_reset = \<lparr>state = START_RECORD, field = [], field_list = []\<rparr>"

definition parse_save_field :: "reader \<Rightarrow> reader" where
  "parse_save_field r = r\<lparr>field_list := field_list r @ [field r], field := []\<rparr>"

definition parse_add_char :: "reader \<Rightarrow> uchar \<Rightarrow> csv_error + reader" where
  "parse_add_char r c =
     (if length (field r) \<ge> field_limit then Inl FieldLimit
      else Inr (r\<lparr>field := field r @ [c]\<rparr>))"

text \<open>
  \<open>start_field r x\<close> is the case \<open>START_FIELD\<close>, which the case \<open>START_RECORD\<close> falls
  through to. The input \<open>None\<close> is the end-of-line marker the reader feeds after the
  last character of every line.
\<close>

definition start_field :: "reader \<Rightarrow> uchar option \<Rightarrow> csv_error + reader" where
  "start_field r x =
     (case x of
        None \<Rightarrow> Inr ((parse_save_field r)\<lparr>state := START_RECORD\<rparr>)
      | Some c \<Rightarrow>
          if c = 10 \<or> c = 13 then Inr ((parse_save_field r)\<lparr>state := EAT_CRNL\<rparr>)
          else if c = 34 then Inr (r\<lparr>state := IN_QUOTED_FIELD\<rparr>)
          else if c = 44 then Inr (parse_save_field r)
          else (case parse_add_char r c of
                  Inl e \<Rightarrow> Inl e
                | Inr r' \<Rightarrow> Inr (r'\<lparr>state := IN_FIELD\<rparr>)))"

definition parse_process_char :: "reader \<Rightarrow> uchar option \<Rightarrow> csv_error + reader" where
  "parse_process_char r x =
     (case state r of
        START_RECORD \<Rightarrow>
          (case x of
             None \<Rightarrow> Inr r
           | Some c \<Rightarrow>
               if c = 10 \<or> c = 13 then Inr (r\<lparr>state := EAT_CRNL\<rparr>)
               else start_field (r\<lparr>state := START_FIELD\<rparr>) x)
      | START_FIELD \<Rightarrow> start_field r x
      | IN_FIELD \<Rightarrow>
          (case x of
             None \<Rightarrow> Inr ((parse_save_field r)\<lparr>state := START_RECORD\<rparr>)
           | Some c \<Rightarrow>
               if c = 10 \<or> c = 13 then Inr ((parse_save_field r)\<lparr>state := EAT_CRNL\<rparr>)
               else if c = 44 then Inr ((parse_save_field r)\<lparr>state := START_FIELD\<rparr>)
               else parse_add_char r c)
      | IN_QUOTED_FIELD \<Rightarrow>
          (case x of
             None \<Rightarrow> Inr r
           | Some c \<Rightarrow>
               if c = 34 then Inr (r\<lparr>state := QUOTE_IN_QUOTED_FIELD\<rparr>)
               else parse_add_char r c)
      | QUOTE_IN_QUOTED_FIELD \<Rightarrow>
          (case x of
             None \<Rightarrow> Inr ((parse_save_field r)\<lparr>state := START_RECORD\<rparr>)
           | Some c \<Rightarrow>
               if c = 34 then
                 (case parse_add_char r c of
                    Inl e \<Rightarrow> Inl e
                  | Inr r' \<Rightarrow> Inr (r'\<lparr>state := IN_QUOTED_FIELD\<rparr>))
               else if c = 44 then Inr ((parse_save_field r)\<lparr>state := START_FIELD\<rparr>)
               else if c = 10 \<or> c = 13 then Inr ((parse_save_field r)\<lparr>state := EAT_CRNL\<rparr>)
               else (case parse_add_char r c of
                       Inl e \<Rightarrow> Inl e
                     | Inr r' \<Rightarrow> Inr (r'\<lparr>state := IN_FIELD\<rparr>)))
      | EAT_CRNL \<Rightarrow>
          (case x of
             None \<Rightarrow> Inr (r\<lparr>state := START_RECORD\<rparr>)
           | Some c \<Rightarrow>
               if c = 10 \<or> c = 13 then Inr r else Inl NewlineInUnquotedField))"

text \<open>The characters of one line, then the end-of-line marker.\<close>

fun feed :: "reader \<Rightarrow> ustring \<Rightarrow> csv_error + reader" where
  "feed r [] = Inr r"
| "feed r (c # cs) =
     (case parse_process_char r (Some c) of Inl e \<Rightarrow> Inl e | Inr r' \<Rightarrow> feed r' cs)"

definition feed_line :: "reader \<Rightarrow> ustring \<Rightarrow> csv_error + reader" where
  "feed_line r line =
     (case feed r line of Inl e \<Rightarrow> Inl e | Inr r' \<Rightarrow> parse_process_char r' None)"

text \<open>
  \<open>read_rows r lines\<close>: the rows the reader yields from \<open>lines\<close> when its state is \<open>r\<close>,
  and the error that ends the iteration, if any. A record is complete when the state is
  \<open>START_RECORD\<close> after a line; otherwise the next line continues it. When the lines run
  out inside a record, the record is yielded as it stands.
\<close>

fun read_rows :: "reader \<Rightarrow> ustring list \<Rightarrow> ustring list list \<times> csv_error option" where
  "read_rows r [] =
     (if field r \<noteq> [] \<or> state r = IN_QUOTED_FIELD
      then ([field_list (parse_save_field r)], None)
      else ([], None))"
| "read_rows r (line # lines) =
     (case feed_line r line of
        Inl e \<Rightarrow> ([], Some e)
      | Inr r' \<Rightarrow>
          if state r' = START_RECORD
          then (case read_rows parse_reset lines of (rows, e) \<Rightarrow> (field_list r' # rows, e))
          else read_rows r' lines)"

definition csv_reader :: "ustring list \<Rightarrow> ustring list list \<times> csv_error option" where
  "csv_reader lines = read_rows parse_reset lines"

section \<open>Text files\<close>

text \<open>
  A file opened for reading in text mode without a \<open>newline\<close> argument translates
  CR LF and a lone CR to LF; iterating over it yields the lines, each with its LF
  (the last line may lack one). File contents are code points: encoding to and
  decoding from UTF-8 is assumed to succeed.
\<close>

fun universal_newlines :: "ustring \<Rightarrow> ustring" where
  "universal_newlines (c # d # cs) =
     (if c = 13 \<and> d = 10 then 10 # universal_newlines cs
      else if c = 13 then 10 # universal_newlines (d # cs)
      else c # universal_newlines (d # cs))"
| "universal_newlines [c] = [if c = 13 then 10 else c]"
| "universal_newlines [] = []"

fun split_lines :: "ustring \<Rightarrow> ustring \<Rightarrow> ustring list" where
  "split_lines cur [] = (if cur = [] then [] else [cur])"
| "split_lines cur (c # cs) =
     (if c = 10 then (cur @ [10]) # split_lines [] cs else split_lines (cur @ [c]) cs)"

definition file_lines :: "ustring \<Rightarrow> ustring list" where
  "file_lines content = split_lines [] (universal_newlines content)"

definition startswith :: "ustring \<Rightarrow> ustring \<Rightarrow> bool" where
  "startswith s prefix \<longleftrightarrow> take (length prefix) s = prefix"

definition endswith :: "ustring \<Rightarrow> ustring \<Rightarrow> bool" where
  "endswith s suffix \<longleftrightarrow> length suffix \<le> length s \<and> drop (length s - length suffix) s = suffix"

section \<open>The tracker's state\<close>

text \<open>
  \<open>active_session\<close> is a value of the dictionary \<open>session_active\<close>
  (\<open>{'start': datetime, 'window_title': str}\<close>); \<open>session\<close> is an element of the lists in
  \<open>sessions\<close>, with the fields named after the columns of the log;
  \<open>meta\<close> is a value of \<open>log_meta\<close>, a dictionary in which either key may be missing.
\<close>

record active_session =
  start :: datetime
  window_title :: ustring

record session =
  session_start :: ustring
  session_end :: ustring
  session_duration_sec :: int
  session_window_title :: ustring

record meta =
  created :: "ustring option"
  last_changed :: "ustring option"

text \<open>
  \<open>session_active\<close> is a dictionary that the code iterates over, so it is an association
  list in insertion order. \<open>sessions\<close> is a \<open>defaultdict(list)\<close> that is only ever
  indexed: a function with the value \<open>[]\<close> where nothing was stored. \<open>files\<close> is the
  content of the folder \<open>LOG_FOLDER\<close>: file names with the text of each file. Opening and
  writing a file is assumed to succeed.
\<close>

record tracker =
  session_active :: "(ustring \<times> active_session) list"
  sessions :: "ustring \<Rightarrow> session list"
  log_meta :: "ustring \<rightharpoonup> meta"
  files :: "(ustring \<times> ustring) list"

datatype error =
  WindowsError
| KeyError ustring
| ValueError ustring
| CsvError csv_error

fun write_file :: "ustring \<Rightarrow> ustring \<Rightarrow> (ustring \<times> ustring) list \<Rightarrow> (ustring \<times> ustring) list" where
  "write_file fname content [] = [(fname, content)]"
| "write_file fname content ((n, c) # fs) =
     (if n = fname then (n, content) # fs else (n, c) # write_file fname content fs)"

section \<open>Saving a project's log (\<open>save_session_log\<close>)\<close>

definition log_file_name :: "ustring \<Rightarrow> ustring" where
  "log_file_name proj = proj @ ustr ''_log.csv''"

definition header_lines :: "ustring \<Rightarrow> ustring \<Rightarrow> int \<Rightarrow> ustring list" where
  "header_lines created_at last_changed_at total_time =
     [ustr ''# Created: '' @ created_at,
      ustr ''# Last changed: '' @ last_changed_at,
      ustr ''# Total time across all sessions (sec): '' @ py_str_int total_time,
      ustr ''# Columns: session_start, session_end, session_duration_sec, window_title'']"

definition session_row :: "session \<Rightarrow> ustring list" where
  "session_row s =
     [session_start s, session_end s, py_str_int (session_duration_sec s),
      session_window_title s]"

text \<open>What the \<open>with open(fname, 'w', newline='')\<close> block writes.\<close>

definition header_row :: "ustring list" where
  "header_row = [ustr ''session_start'', ustr ''session_end'', ustr ''session_duration_sec'',
                 ustr ''window_title'']"

definition log_file_text :: "ustring list \<Rightarrow> session list \<Rightarrow> ustring" where
  "log_file_text header ss =
     concat (map (\<lambda>line. line @ [10]) header) @
     writerow header_row @
     concat (map (\<lambda>s. writerow (session_row s)) ss)"

definition total_duration :: "session list \<Rightarrow> int" where
  "total_duration ss = sum_list (map session_duration_sec ss)"

text \<open>\<open>self.log_meta.get(proj,{}).get('created', dflt)\<close>\<close>

definition created_or :: "tracker \<Rightarrow> ustring \<Rightarrow> ustring \<Rightarrow> ustring" where
  "created_or st proj dflt =
     (case log_meta st proj of
        None \<Rightarrow> dflt
      | Some m \<Rightarrow> (case created m of None \<Rightarrow> dflt | Some c \<Rightarrow> c))"

definition save_session_log :: "datetime \<Rightarrow> ustring \<Rightarrow> tracker \<Rightarrow> tracker" where
  "save_session_log now proj st =
     (case sessions st proj of
        [] \<Rightarrow> st
      | s0 # _ \<Rightarrow>
          (let fname = log_file_name proj;
               total_time = total_duration (sessions st proj);
               created_at = created_or st proj (session_start s0);
               last_changed_at = strftime now
           in st\<lparr>log_meta := (log_meta st)(proj \<mapsto>
                     \<lparr>created = Some created_at, last_changed = Some last_changed_at\<rparr>),
                 files := write_file fname
                     (log_file_text (header_lines created_at last_changed_at total_time)
                        (sessions st proj))
                     (files st)\<rparr>))"

section \<open>Loading the logs (\<open>load_existing_sessions\<close>)\<close>

text \<open>
  \<open>line.strip().split(':',1)[1].strip()\<close>, applied to a line that starts with one of the
  two prefixes tested and hence contains a colon.
\<close>

definition after_colon :: "ustring \<Rightarrow> ustring" where
  "after_colon line = strip (drop 1 (dropWhile (\<lambda>c. c \<noteq> 58) (strip line)))"

text \<open>The first loop over the lines of a file, which stops at the first data line.\<close>

fun read_meta :: "meta \<Rightarrow> ustring list \<Rightarrow> meta" where
  "read_meta m [] = m"
| "read_meta m (line # lines) =
     (if startswith line (ustr ''# Created:'')
      then read_meta (m\<lparr>created := Some (after_colon line)\<rparr>) lines
      else if startswith line (ustr ''# Last changed:'')
      then read_meta (m\<lparr>last_changed := Some (after_colon line)\<rparr>) lines
      else if \<not> startswith line (ustr ''#'') \<and> strip line \<noteq> []
      then m
      else read_meta m lines)"

text \<open>
  The loop \<open>for row in reader\<close>. \<open>int(row[2])\<close> raises \<open>ValueError\<close> outside of any
  \<open>try\<close>; an error of the reader is raised when the iteration reaches it.
\<close>

fun append_rows :: "ustring \<Rightarrow> ustring list list \<Rightarrow> csv_error option \<Rightarrow> tracker \<Rightarrow> error + tracker" where
  "append_rows proj [] err st = (case err of None \<Rightarrow> Inr st | Some e \<Rightarrow> Inl (CsvError e))"
| "append_rows proj (row # rows) err st =
     (if length row \<ge> 3 then
        (case py_int (row ! 2) of
           None \<Rightarrow> Inl (ValueError (row ! 2))
         | Some d \<Rightarrow>
             append_rows proj rows err
               (st\<lparr>sessions := (sessions st)(proj := sessions st proj @
                  [\<lparr>session_start = row ! 0, session_end = row ! 1, session_duration_sec = d,
                    session_window_title = (if length row > 3 then row ! 3 else [])\<rparr>])\<rparr>))
      else append_rows proj rows err st)"

text \<open>
  The body of the loop over \<open>os.listdir(LOG_FOLDER)\<close> for one file. The lines handed to
  the reader are those that do not begin with \<open>#\<close>; \<open>next(reader, None)\<close> drops the
  first row.
\<close>

definition load_log_file :: "datetime \<Rightarrow> ustring \<times> ustring \<Rightarrow> tracker \<Rightarrow> error + tracker" where
  "load_log_file now entry st =
     (case entry of (fname, content) \<Rightarrow>
        if endswith fname (ustr ''_log.csv'') then
          (let proj = take (length fname - 8) fname;
               lines = file_lines content;
               m = read_meta \<lparr>created = None, last_changed = None\<rparr> lines;
               st1 = st\<lparr>log_meta := (log_meta st)(proj \<mapsto>
                        (if m = \<lparr>created = None, last_changed = None\<rparr>
                         then \<lparr>created = Some (strftime now), last_changed = Some (strftime now)\<rparr>
                         else m))\<rparr>
           in case csv_reader (filter (\<lambda>row. take 1 row \<noteq> ustr ''#'') lines) of
                (rows, err) \<Rightarrow> append_rows proj (drop 1 rows) err st1)
        else Inr st)"

fun load_files :: "datetime \<Rightarrow> (ustring \<times> ustring) list \<Rightarrow> tracker \<Rightarrow> error + tracker" where
  "load_files now [] st = Inr st"
| "load_files now (entry # entries) st =
     (case load_log_file now entry st of
        Inl e \<Rightarrow> Inl e
      | Inr st' \<Rightarrow> load_files now entries st')"

definition load_existing_sessions :: "datetime \<Rightarrow> tracker \<Rightarrow> error + tracker" where
  "load_existing_sessions now st = load_files now (files st) st"

text \<open>\<open>WindowTimeTracker()\<close> on a log folder with the files \<open>fs\<close>.\<close>

definition new_tracker :: "datetime \<Rightarrow> (ustring \<times> ustring) list \<Rightarrow> error + tracker" where
  "new_tracker now fs =
     load_existing_sessions now
       \<lparr>session_active = [], sessions = (\<lambda>_. []), log_meta = Map.empty, files = fs\<rparr>"

section \<open>Opening and closing sessions\<close>

definition on_window_open :: "datetime \<Rightarrow> ustring \<Rightarrow> tracker \<Rightarrow> tracker" where
  "on_window_open now wtitle st =
     (let proj = extract_project_name wtitle
      in if map_of (session_active st) proj = None
         then st\<lparr>session_active := session_active st @
                  [(proj, \<lparr>start = now, window_title = wtitle\<rparr>)]\<rparr>
         else st)"

definition on_window_close :: "datetime \<Rightarrow> ustring \<Rightarrow> tracker \<Rightarrow> tracker" where
  "on_window_close now wtitle st =
     (let proj = extract_project_name wtitle
      in case map_of (session_active st) proj of
           None \<Rightarrow> st
         | Some sess \<Rightarrow>
             (let st1 = st\<lparr>session_active := filter (\<lambda>(k, _). k \<noteq> proj) (session_active st)\<rparr>;
                  end_time = now;
                  duration = elapsed_seconds end_time (start sess);
                  st2 = st1\<lparr>sessions := (sessions st1)(proj := sessions st1 proj @
                          [\<lparr>session_start = strftime (start sess),
                            session_end = strftime end_time,
                            session_duration_sec = duration,
                            session_window_title = wtitle\<rparr>])\<rparr>
              in save_session_log now proj st2))"

section \<open>The polling loop (\<open>run\<close>)\<close>

text \<open>
  What \<open>win32gui.EnumWindows\<close> does in one cycle is an input: either the call raises, or
  it reports the windows, each with its visibility and title text.
\<close>

datatype enumeration = EnumFails | Enumerates "(bool \<times> ustring) list"

definition get_all_open_windows :: "enumeration \<Rightarrow> error + ustring list" where
  "get_all_open_windows en =
     (case en of
        EnumFails \<Rightarrow> Inl WindowsError
      | Enumerates hwnds \<Rightarrow>
          Inr (map snd (filter (\<lambda>(visible, title). visible \<and> title \<noteq> []) hwnds)))"

text \<open>
  The loop \<open>for wtitle in current_windows\<close>, with the set \<open>tracked_now\<close> it builds. One
  cycle is given one clock value \<open>now\<close>, read by each \<open>datetime.now()\<close> of the cycle.
\<close>

fun track_starts :: "datetime \<Rightarrow> ustring list \<Rightarrow> ustring set \<times> tracker \<Rightarrow> ustring set \<times> tracker" where
  "track_starts now [] (tracked_now, st) = (tracked_now, st)"
| "track_starts now (wtitle # ws) (tracked_now, st) =
     (let proj = extract_project_name wtitle
      in if is_tracked wtitle
         then track_starts now ws
                (insert proj tracked_now,
                 if map_of (session_active st) proj = None then on_window_open now wtitle st
                 else st)
         else track_starts now ws (tracked_now, st))"

text \<open>
  The loops \<open>for proj in list(...)\<close>, of the cycle and of the interrupt handler;
  \<open>self.session_active[proj]\<close> raises \<open>KeyError\<close> when the key is gone. An error comes
  with the state the tracker has when it is raised. The order in which Python iterates
  over the set \<open>closed_projs\<close> is not fixed; the model takes the order of the dictionary.
\<close>

fun close_projs :: "datetime \<Rightarrow> ustring list \<Rightarrow> tracker \<Rightarrow> error \<times> tracker + tracker" where
  "close_projs now [] st = Inr st"
| "close_projs now (proj # projs) st =
     (case map_of (session_active st) proj of
        None \<Rightarrow> Inl (KeyError proj, st)
      | Some sess \<Rightarrow> close_projs now projs (on_window_close now (window_title sess) st))"

text \<open>One iteration of \<open>while True\<close>, up to the sleep.\<close>

definition poll_cycle :: "datetime \<Rightarrow> enumeration \<Rightarrow> tracker \<Rightarrow> error \<times> tracker + tracker" where
  "poll_cycle now en st =
     (case get_all_open_windows en of
        Inl e \<Rightarrow> Inl (e, st)
      | Inr current_windows \<Rightarrow>
          (case track_starts now current_windows ({}, st) of
             (tracked_now, st1) \<Rightarrow>
               close_projs now
                 (filter (\<lambda>proj. proj \<notin> tracked_now) (map fst (session_active st1))) st1))"

text \<open>The handler of \<open>KeyboardInterrupt\<close>.\<close>

definition shutdown :: "datetime \<Rightarrow> tracker \<Rightarrow> error \<times> tracker + tracker" where
  "shutdown now st = close_projs now (map fst (session_active st)) st"

text \<open>
  The loop never ends by itself. What the environment does is a list of events, one per
  iteration: a cycle with the clock value and the behaviour of the enumeration, or a
  \<open>KeyboardInterrupt\<close> raised during the sleep. \<open>run\<close> consumes the events: \<open>Polling\<close>
  means the loop is still running when the events are used up, \<open>Stopped\<close> that \<open>run\<close>
  returned from the interrupt handler, \<open>Crashed\<close> that an exception left \<open>run\<close>, with the
  state the tracker had then. An interrupt that arrives while a cycle is being processed
  is not modelled.
\<close>

datatype event = Poll datetime enumeration | Interrupt datetime

datatype outcome = Polling tracker | Stopped tracker | Crashed error tracker

fun run :: "event list \<Rightarrow> tracker \<Rightarrow> outcome" where
  "run [] st = Polling st"
| "run (Poll now en # evs) st =
     (case poll_cycle now en st of
        Inl (e, st') \<Rightarrow> Crashed e st'
      | Inr st' \<Rightarrow> run evs st')"
| "run (Interrupt now # evs) st =
     (case shutdown now st of
        Inl (e, st') \<Rightarrow> Crashed e st'
      | Inr st' \<Rightarrow> Stopped st')"

fun tracker_of :: "outcome \<Rightarrow> tracker" where
  "tracker_of (Polling st) = st"
| "tracker_of (Stopped st) = st"
| "tracker_of (Crashed e st) = st"

section \<open>The classification as the specification words it\<close>

text \<open>
  The specification describes the classification as a split at the first dash-family
  separator, whatever precedes it: the text before the first dash (the whitespace in
  front of the dash belongs to the separator), or the first 50 characters when the title
  has no dash. \<open>spec_classify_project\<close> follows these words and is otherwise the source's
  function; it exists to be compared with \<open>extract_project_name\<close>.
\<close>

definition spec_text_before_separator :: "ustring \<Rightarrow> ustring option" where
  "spec_text_before_separator title =
     (if \<exists>c\<in>set title. is_dash c then Some (takeWhile (\<lambda>c. \<not> is_dash c) title) else None)"

definition spec_classify_project :: "ustring \<Rightarrow> ustring" where
  "spec_classify_project title =
     (let project_name =
            (case spec_text_before_separator title of
               Some b \<Rightarrow> strip b
             | None \<Rightarrow> take 50 title);
          project_name = re_sub_illegal (lstrip_chars (ustr ''* '') project_name)
      in if length project_name < 2 then ustr ''Unnamed_Project'' else project_name)"

section \<open>Notions used to state the tracker's properties\<close>

text \<open>
  The session that closing the active session \<open>a\<close> at the clock value \<open>now\<close> appends
  to the project's history.
\<close>

definition closed_session :: "datetime \<Rightarrow> active_session \<Rightarrow> session" where
  "closed_session now a =
     \<lparr>session_start = strftime (start a), session_end = strftime now,
      session_duration_sec = elapsed_seconds now (start a),
      session_window_title = window_title a\<rparr>"

text \<open>
  The windows of one cycle through which a project is observed: the titles of a tracked
  application that classify to the project, in the order of the enumeration.
\<close>

definition observed_titles :: "ustring \<Rightarrow> ustring list \<Rightarrow> ustring list" where
  "observed_titles proj ws = filter (\<lambda>w. is_tracked w \<and> extract_project_name w = proj) ws"

definition observed :: "ustring \<Rightarrow> enumeration \<Rightarrow> bool" where
  "observed proj en \<longleftrightarrow>
     (case get_all_open_windows en of
        Inl e \<Rightarrow> False
      | Inr ws \<Rightarrow> observed_titles proj ws \<noteq> [])"

text \<open>
  The keys of \<open>session_active\<close> are distinct, as those of a dictionary are, and every
  active session is stored under the project its own window title classifies to.
\<close>

definition tracker_inv :: "tracker \<Rightarrow> bool" where
  "tracker_inv st \<longleftrightarrow>
     distinct (map fst (session_active st)) \<and>
     (\<forall>(proj, a)\<in>set (session_active st). extract_project_name (window_title a) = proj)"

text \<open>The text of a project's log file in the folder, if the file exists.\<close>

definition persisted_log :: "tracker \<Rightarrow> ustring \<Rightarrow> ustring option" where
  "persisted_log st proj = map_of (files st) (log_file_name proj)"

text \<open>
  The text \<open>save_session_log\<close> writes for a project whose history is the non-empty list
  \<open>ss\<close>, in a tracker whose metadata are those of \<open>st\<close>.
\<close>

definition saved_log_text :: "tracker \<Rightarrow> ustring \<Rightarrow> datetime \<Rightarrow> session list \<Rightarrow> ustring" where
  "saved_log_text st proj now ss =
     log_file_text
       (header_lines (created_or st proj (session_start (hd ss))) (strftime now)
          (total_duration ss))
       ss"

section \<open>Example data\<close>

text \<open>
  A tracker right after its construction on an empty log folder, clock values on
  2024-01-01 between 10:00:00 and 10:59:59, and an enumeration that reports the one
  visible window \<open>ProjA - Blender\<close>.
\<close>

definition fresh_tracker :: tracker where
  "fresh_tracker = \<lparr>session_active = [], sessions = (\<lambda>_. []), log_meta = Map.empty, files = []\<rparr>"

definition at_10h :: "nat \<Rightarrow> nat \<Rightarrow> datetime" where
  "at_10h m s =
     \<lparr>year = 2024, month = 1, day = 1, hour = 10, minute = m, second = s, microsecond = 0\<rparr>"

definition proj_a_window :: enumeration where
  "proj_a_window = Enumerates [(True, ustr ''ProjA - Blender'')]"

section \<open>Notions used to state the properties of the log files\<close>

text \<open>
  A text without carriage return and line feed; a session whose row in the log has only
  such fields, none longer than the reader's field limit, and whose start does not begin
  with \<open>#\<close>.
\<close>

definition line_free :: "ustring \<Rightarrow> bool" where
  "line_free s \<longleftrightarrow> 10 \<notin> set s \<and> 13 \<notin> set s"

definition reloadable :: "session \<Rightarrow> bool" where
  "reloadable s \<longleftrightarrow>
     (\<forall>f\<in>set (session_row s). line_free f \<and> length f \<le> field_limit) \<and>
     take 1 (session_start s) \<noteq> ustr ''#''"

text \<open>
  A log file in the layout \<open>save_session_log\<close> produces, with arbitrary fields in its
  rows: what a project's log is after its rows were edited.
\<close>

definition log_text :: "ustring list \<Rightarrow> ustring list list \<Rightarrow> ustring" where
  "log_text header rows =
     concat (map (\<lambda>line. line @ [10]) header) @ concat (map writerow (header_row # rows))"

text \<open>
  A row the reader gets back as written: at least two fields, all of them free of line
  breaks and within the field limit, the first one not beginning with \<open>#\<close>.
\<close>

definition readable_row :: "ustring list \<Rightarrow> bool" where
  "readable_row fs \<longleftrightarrow>
     length fs \<ge> 2 \<and> (\<forall>f\<in>set fs. line_free f \<and> length f \<le> field_limit) \<and>
     take 1 (hd fs) \<noteq> ustr ''#''"

text \<open>
  The history of a project after a restart of the tracker on the log folder \<open>fs\<close>;
  \<open>None\<close> when the construction of the tracker raises.
\<close>

definition reloaded_sessions :: "datetime \<Rightarrow> (ustring \<times> ustring) list \<Rightarrow> ustring \<Rightarrow> session list option" where
  "reloaded_sessions now fs proj =
     (case new_tracker now fs of Inl e \<Rightarrow> None | Inr st \<Rightarrow> Some (sessions st proj))"

section \<open>Example logs\<close>

text \<open>
  A log of three sessions as the tracker writes it, in which the duration of the second
  row was replaced by the word \<open>sixty\<close>.
\<close>

definition corrupt_rows :: "ustring list list" where
  "corrupt_rows =
     [[ustr ''2024-01-01 09:00:00'', ustr ''2024-01-01 09:01:00'', ustr ''60'',
       ustr ''ProjA - Blender''],
      [ustr ''2024-01-01 09:10:00'', ustr ''2024-01-01 09:11:00'', ustr ''sixty'',
       ustr ''ProjA - Blender''],
      [ustr ''2024-01-01 09:20:00'', ustr ''2024-01-01 09:21:00'', ustr ''60'',
       ustr ''ProjA - Blender'']]"

definition corrupt_log :: ustring where
  "corrupt_log =
     log_text (header_lines (ustr ''2024-01-01 09:00:00'') (ustr ''2024-01-01 09:21:00'') 180)
       corrupt_rows"

text \<open>A tracker that holds one closed session of \<open>ProjA\<close> and nothing else.\<close>

definition proj_a_session :: session where
  "proj_a_session =
     \<lparr>session_start = ustr ''2024-01-01 10:00:00'', session_end = ustr ''2024-01-01 10:01:00'',
      session_duration_sec = 60, session_window_title = ustr ''ProjA - Blender''\<rparr>"

definition proj_a_tracker :: tracker where
  "proj_a_tracker =
     fresh_tracker\<lparr>sessions := (sessions fresh_tracker)(ustr ''ProjA'' := [proj_a_session])\<rparr>"


text \<open>
  A window title with a carriage return after the application name, and the tracker
  after that window was seen at 10:00:00 and was gone at 10:01:00.
\<close>

definition cr_title :: ustring where
  "cr_title = ustr ''ProjA - Blender'' @ [13] @ ustr ''scene''"

definition cr_tracker :: tracker where
  "cr_tracker =
     tracker_of (run [Poll (at_10h 0 0) (Enumerates [(True, cr_title)]),
                      Poll (at_10h 1 0) (Enumerates [])] fresh_tracker)"


section \<open>Properties of the title classification\<close>

lemmas classify_defs =
  extract_project_name_def project_name_sanitized_def re_search_group1_def ustr_def
  is_dash_def isspace_def strip_def lstrip_def rstrip_def lstrip_chars_def
  re_sub_illegal_def illegal_chars_def

lemma is_dash_not_space: "is_dash c \<Longrightarrow> \<not> isspace c"
  by (auto simp: is_dash_def isspace_def)

lemma sep_ahead_no_dash: "\<forall>c\<in>set s. \<not> is_dash c \<Longrightarrow> \<not> sep_ahead s"
  by (induction s) auto

lemma sep_ahead_before_dash:
  "\<forall>c\<in>set a. \<not> is_dash c \<Longrightarrow> is_dash d \<Longrightarrow>
   sep_ahead (a @ d # r) \<longleftrightarrow> (\<forall>c\<in>set a. isspace c)"
  by (induction a) auto

text \<open>Without a dash after the first character the pattern does not match.\<close>

lemma lazy_group_no_dash: "\<forall>c\<in>set (tl s). \<not> is_dash c \<Longrightarrow> lazy_group acc s = None"
proof (induction s arbitrary: acc)
  case Nil
  then show ?case by simp
next
  case (Cons c cs)
  then have "\<not> sep_ahead cs" by (simp add: sep_ahead_no_dash)
  moreover have "\<forall>x\<in>set (tl cs). \<not> is_dash x" using Cons.prems by (cases cs) auto
  ultimately show ?case using Cons.IH by simp
qed

text \<open>
  With a first dash behind a non-empty text \<open>a\<close> free of line feeds, group 1 is \<open>a\<close>
  without some of its trailing whitespace.
\<close>

lemma lazy_group_split:
  "a \<noteq> [] \<Longrightarrow> is_dash d \<Longrightarrow> \<forall>c\<in>set (tl a). \<not> is_dash c \<Longrightarrow> 10 \<notin> set a \<Longrightarrow>
   \<exists>g w. a = g @ w \<and> g \<noteq> [] \<and> (\<forall>c\<in>set w. isspace c) \<and>
         lazy_group acc (a @ d # r) = Some (acc @ g)"
proof (induction a arbitrary: acc)
  case Nil
  then show ?case by simp
next
  case (Cons c a')
  show ?case
  proof (cases "\<forall>x\<in>set a'. isspace x")
    case True
    then have "sep_ahead (a' @ d # r)" using Cons.prems by (simp add: sep_ahead_before_dash)
    then have "lazy_group acc ((c # a') @ d # r) = Some (acc @ [c])" using Cons.prems by simp
    then show ?thesis using True by (intro exI[of _ "[c]"] exI[of _ a']) simp
  next
    case False
    then have ne: "a' \<noteq> []" by auto
    have nosep: "\<not> sep_ahead (a' @ d # r)"
      using False Cons.prems by (simp add: sep_ahead_before_dash)
    have "\<forall>x\<in>set (tl a'). \<not> is_dash x" using Cons.prems ne by (cases a') auto
    then obtain g w where gw: "a' = g @ w" "g \<noteq> []" "\<forall>c\<in>set w. isspace c"
      "lazy_group (acc @ [c]) (a' @ d # r) = Some ((acc @ [c]) @ g)"
      using Cons.IH[OF ne Cons.prems(2), of "acc @ [c]"] Cons.prems by auto
    have "lazy_group acc ((c # a') @ d # r) = Some (acc @ (c # g))"
      using nosep gw(4) Cons.prems by simp
    then show ?thesis using gw by (intro exI[of _ "c # g"] exI[of _ w]) simp
  qed
qed

lemma dropWhile_all: "\<forall>c\<in>set w. P c \<Longrightarrow> dropWhile P w = []"
  by (induction w) auto

lemma dropWhile_all_append: "\<forall>c\<in>set w. P c \<Longrightarrow> dropWhile P (w @ ys) = dropWhile P ys"
  by (induction w) auto

lemma strip_append_space: "\<forall>c\<in>set w. isspace c \<Longrightarrow> strip (g @ w) = strip g"
proof (cases "\<forall>c\<in>set g. isspace c")
  case True
  assume "\<forall>c\<in>set w. isspace c"
  with True show ?thesis by (simp add: strip_def lstrip_def rstrip_def dropWhile_all)
next
  case False
  assume w: "\<forall>c\<in>set w. isspace c"
  from False have "dropWhile isspace (g @ w) = dropWhile isspace g @ w"
    by (auto simp: dropWhile_append1)
  then show ?thesis using w by (simp add: strip_def lstrip_def rstrip_def dropWhile_all_append)
qed

lemma set_re_sub_illegal: "set (re_sub_illegal s) \<inter> illegal_chars = {}"
  by (auto simp: re_sub_illegal_def illegal_chars_def)

lemma length_re_sub_illegal: "length (re_sub_illegal s) = length s"
  by (simp add: re_sub_illegal_def)

lemma project_name_split:
  assumes "a \<noteq> []" "is_dash d" "\<forall>c\<in>set (tl a). \<not> is_dash c" "10 \<notin> set a"
  shows "project_name_sanitized (a @ d # r) =
         re_sub_illegal (lstrip_chars (ustr ''* '') (strip a))"
proof -
  from lazy_group_split[OF assms, of "[]" r] obtain g w where
    gw: "a = g @ w" "\<forall>c\<in>set w. isspace c" "lazy_group [] (a @ d # r) = Some g" by auto
  have "strip g = strip a" using gw by (simp add: strip_append_space)
  then show ?thesis using gw(3) by (simp add: project_name_sanitized_def re_search_group1_def)
qed

lemma project_name_no_separator:
  assumes "\<forall>c\<in>set (tl t). \<not> is_dash c"
  shows "project_name_sanitized t = re_sub_illegal (lstrip_chars (ustr ''* '') (take 50 t))"
  using lazy_group_no_dash[OF assms, of "[]"]
  by (simp add: project_name_sanitized_def re_search_group1_def)

lemma extract_project_name_length: "2 \<le> length (extract_project_name t)"
  by (simp add: extract_project_name_def ustr_def Let_def)

text \<open>
  C4, as stated, at the input the claim names: the title \<open>- App\<close> begins with the dash,
  the pattern needs at least one character before the separator, so the title is not
  split and its five characters are the project name, not the sentinel.
\<close>

theorem short_name_example_counterexample:
  "extract_project_name (ustr ''- App'') \<noteq> ustr ''Unnamed_Project''"
  by (simp add: classify_defs)

text \<open>
  C4 (amended): whenever the name left after the split, the stripping and the replacement
  of illegal characters has fewer than 2 characters, the result is the sentinel
  \<open>Unnamed_Project\<close>, as for the title \<open>A - App\<close>; the title \<open>- App\<close> is not split and is
  classified as \<open>- App\<close>.
\<close>

theorem short_name_fallback:
  "(length (project_name_sanitized t) < 2 \<longrightarrow>
      extract_project_name t = ustr ''Unnamed_Project'') \<and>
   extract_project_name (ustr ''A - App'') = ustr ''Unnamed_Project'' \<and>
   extract_project_name (ustr ''- App'') = ustr ''- App''"
proof (intro conjI impI)
  assume "length (project_name_sanitized t) < 2"
  then show "extract_project_name t = ustr ''Unnamed_Project''"
    by (simp add: extract_project_name_def)
next
  show "extract_project_name (ustr ''A - App'') = ustr ''Unnamed_Project''"
    by (simp add: classify_defs)
next
  show "extract_project_name (ustr ''- App'') = ustr ''- App''"
    by (simp add: classify_defs)
qed

theorem short_name_fallback_witness:
  "length (project_name_sanitized (ustr ''* B - Revit'')) < 2 \<and>
   extract_project_name (ustr ''* B - Revit'') = ustr ''Unnamed_Project''"
proof -
  have h: "length (project_name_sanitized (ustr ''* B - Revit'')) < 2"
    by (simp add: classify_defs)
  with short_name_fallback[of "ustr ''* B - Revit''"] show ?thesis by blast
qed

text \<open>
  C5, as stated, against the source: in the title \<open>-x - Blender\<close> the first dash-family
  separator is the first character, so the text before it is empty and the words of the
  specification give the sentinel; the source splits at the second dash and returns \<open>-x\<close>.
\<close>

theorem split_first_separator_counterexample:
  "extract_project_name (ustr ''-x - Blender'') = ustr ''-x'' \<and>
   spec_classify_project (ustr ''-x - Blender'') = ustr ''Unnamed_Project''"
  by (simp add: classify_defs spec_classify_project_def spec_text_before_separator_def)

text \<open>
  C5 (amended): the title is split at the first hyphen, en dash or em dash that is not its
  first character: when the text \<open>a\<close> before that dash is free of line feeds, the name is
  \<open>a\<close> stripped of surrounding whitespace, then of leading \<open>*\<close> and spaces, with the
  illegal characters replaced; when there is no dash after the first character, the same
  is done to the first 50 characters. Both titles of the example give \<open>My House\<close>.
\<close>

theorem split_first_separator:
  "(a \<noteq> [] \<and> is_dash d \<and> (\<forall>c\<in>set (tl a). \<not> is_dash c) \<and> 10 \<notin> set a \<longrightarrow>
      project_name_sanitized (a @ d # r) =
        re_sub_illegal (lstrip_chars (ustr ''* '') (strip a))) \<and>
   ((\<forall>c\<in>set (tl t). \<not> is_dash c) \<longrightarrow>
      project_name_sanitized t = re_sub_illegal (lstrip_chars (ustr ''* '') (take 50 t))) \<and>
   (is_dash d \<longleftrightarrow> d = 45 \<or> d = 8211 \<or> d = 8212) \<and>
   extract_project_name (ustr ''My House - Blender 4.5'') = ustr ''My House'' \<and>
   extract_project_name (ustr ''* My House - Blender'') = ustr ''My House''"
proof (intro conjI impI)
  assume "a \<noteq> [] \<and> is_dash d \<and> (\<forall>c\<in>set (tl a). \<not> is_dash c) \<and> 10 \<notin> set a"
  then show "project_name_sanitized (a @ d # r) =
      re_sub_illegal (lstrip_chars (ustr ''* '') (strip a))"
    by (simp add: project_name_split)
next
  assume "\<forall>c\<in>set (tl t). \<not> is_dash c"
  then show "project_name_sanitized t = re_sub_illegal (lstrip_chars (ustr ''* '') (take 50 t))"
    by (rule project_name_no_separator)
next
  show "is_dash d \<longleftrightarrow> d = 45 \<or> d = 8211 \<or> d = 8212" by (simp add: is_dash_def)
next
  show "extract_project_name (ustr ''My House - Blender 4.5'') = ustr ''My House''"
    by (simp add: classify_defs)
next
  show "extract_project_name (ustr ''* My House - Blender'') = ustr ''My House''"
    by (simp add: classify_defs)
qed

theorem split_first_separator_witness:
  "project_name_sanitized (ustr ''* Villa  '' @ [8212] @ ustr '' ArchiCAD 26'') = ustr ''Villa'' \<and>
   project_name_sanitized (ustr ''Untitled'') = ustr ''Untitled''"
proof -
  have h1: "ustr ''* Villa  '' \<noteq> [] \<and> is_dash 8212 \<and>
      (\<forall>c\<in>set (tl (ustr ''* Villa  '')). \<not> is_dash c) \<and> 10 \<notin> set (ustr ''* Villa  '')"
    by (simp add: ustr_def is_dash_def)
  have h2: "\<forall>c\<in>set (tl (ustr ''Untitled'')). \<not> is_dash c"
    by (simp add: ustr_def is_dash_def)
  from split_first_separator[of "ustr ''* Villa  ''" 8212 "ustr '' ArchiCAD 26''" "ustr ''Untitled''"]
    h1 h2
  have "project_name_sanitized (ustr ''* Villa  '' @ 8212 # ustr '' ArchiCAD 26'') =
          re_sub_illegal (lstrip_chars (ustr ''* '') (strip (ustr ''* Villa  '')))"
    and "project_name_sanitized (ustr ''Untitled'') =
          re_sub_illegal (lstrip_chars (ustr ''* '') (take 50 (ustr ''Untitled'')))"
    by blast+
  then show ?thesis by (simp add: classify_defs)
qed

text \<open>
  C6: for every title, the name returned contains none of the characters
  \<open>< > : " / \ | ? *\<close>.
\<close>

theorem classified_name_is_sanitized:
  "set (extract_project_name t) \<inter> illegal_chars = {}"
proof (cases "length (project_name_sanitized t) < 2")
  case True
  then have "extract_project_name t = ustr ''Unnamed_Project''"
    by (simp add: extract_project_name_def)
  then show ?thesis by (simp add: ustr_def illegal_chars_def)
next
  case False
  then have "extract_project_name t =
      re_sub_illegal (lstrip_chars (ustr ''* '')
        (case re_search_group1 t of Some g \<Rightarrow> strip g | None \<Rightarrow> take 50 t))"
    by (simp add: extract_project_name_def project_name_sanitized_def)
  then show ?thesis by (simp only: set_re_sub_illegal)
qed

lemma sanitization_example:
  "extract_project_name (ustr ''Bad:Name/Here - App'') = ustr ''Bad_Name_Here''"
  by (simp add: classify_defs)

section \<open>Properties of saving and closing\<close>

lemma session_active_save [simp]: "session_active (save_session_log now p st) = session_active st"
  by (simp add: save_session_log_def Let_def split: list.splits)

lemma sessions_save [simp]: "sessions (save_session_log now p st) = sessions st"
  by (simp add: save_session_log_def Let_def split: list.splits)

lemma map_of_write_file:
  "map_of (write_file f c fs) g = (if g = f then Some c else map_of fs g)"
  by (induction fs) auto

lemma log_file_name_inj [simp]: "log_file_name p = log_file_name q \<longleftrightarrow> p = q"
  by (simp add: log_file_name_def)

lemma persisted_save:
  "persisted_log (save_session_log now p st) q =
     (if q = p \<and> sessions st p \<noteq> []
      then Some (saved_log_text st p now (sessions st p))
      else persisted_log st q)"
  by (auto simp: persisted_log_def save_session_log_def saved_log_text_def Let_def
      map_of_write_file split: list.splits)

lemma log_meta_save:
  "log_meta (save_session_log now p st) q =
     (if q = p \<and> sessions st p \<noteq> []
      then Some \<lparr>created = Some (created_or st p (session_start (hd (sessions st p)))),
                 last_changed = Some (strftime now)\<rparr>
      else log_meta st q)"
  by (auto simp: save_session_log_def Let_def split: list.splits)

lemma map_of_filter_key:
  "map_of (filter (\<lambda>(k, _). k \<noteq> p) xs) q = (if q = p then None else map_of xs q)"
  by (induction xs) auto

lemma session_active_close:
  "session_active (on_window_close now w st) =
     filter (\<lambda>(k, _). k \<noteq> extract_project_name w) (session_active st)"
proof (cases "map_of (session_active st) (extract_project_name w)")
  case None
  then have "extract_project_name w \<notin> fst ` set (session_active st)"
    by (simp add: map_of_eq_None_iff)
  then have "filter (\<lambda>(k, _). k \<noteq> extract_project_name w) (session_active st) = session_active st"
    by (force simp: filter_id_conv)
  with None show ?thesis by (simp add: on_window_close_def)
next
  case (Some a)
  then show ?thesis by (simp add: on_window_close_def Let_def)
qed

lemma sessions_close:
  "sessions (on_window_close now w st) q =
     (case map_of (session_active st) (extract_project_name w) of
        None \<Rightarrow> sessions st q
      | Some a \<Rightarrow> if q = extract_project_name w
                  then sessions st q @ [closed_session now (a\<lparr>window_title := w\<rparr>)]
                  else sessions st q)"
  by (simp add: on_window_close_def Let_def closed_session_def split: option.splits)

lemma tracker_inv_filter:
  "tracker_inv st \<Longrightarrow> tracker_inv (st\<lparr>session_active := filter P (session_active st)\<rparr>)"
  by (auto simp: tracker_inv_def distinct_map_filter)

lemma tracker_inv_cong:
  "session_active st' = session_active st \<Longrightarrow> tracker_inv st' = tracker_inv st"
  by (simp add: tracker_inv_def)

lemma tracker_inv_close: "tracker_inv st \<Longrightarrow> tracker_inv (on_window_close now w st)"
  by (auto simp: tracker_inv_def session_active_close distinct_map_filter)

lemma tracker_inv_lookup:
  "tracker_inv st \<Longrightarrow> map_of (session_active st) p = Some a \<Longrightarrow>
   extract_project_name (window_title a) = p"
  by (auto simp: tracker_inv_def dest: map_of_SomeD)

lemma created_or_cong:
  "log_meta st' p = log_meta st p \<Longrightarrow> created_or st' p d = created_or st p d"
  by (simp add: created_or_def)

lemma saved_log_text_cong:
  "log_meta st' p = log_meta st p \<Longrightarrow> saved_log_text st' p now ss = saved_log_text st p now ss"
  by (simp add: saved_log_text_def created_or_cong[of st' p st])

lemma persisted_log_cong:
  "files st' = files st \<Longrightarrow> persisted_log st' q = persisted_log st q"
  by (simp add: persisted_log_def)

lemma on_window_close_active:
  assumes "map_of (session_active st) p = Some a" "extract_project_name (window_title a) = p"
  shows "on_window_close now (window_title a) st =
         save_session_log now p
           (st\<lparr>session_active := filter (\<lambda>(k, _). k \<noteq> p) (session_active st),
               sessions := (sessions st)(p := sessions st p @ [closed_session now a])\<rparr>)"
  using assms by (simp add: on_window_close_def Let_def closed_session_def)

lemma close_active:
  assumes "map_of (session_active st) p = Some a" "extract_project_name (window_title a) = p"
  shows "sessions (on_window_close now (window_title a) st) q =
           (if q = p then sessions st p @ [closed_session now a] else sessions st q)"
    and "persisted_log (on_window_close now (window_title a) st) q =
           (if q = p then Some (saved_log_text st p now (sessions st p @ [closed_session now a]))
            else persisted_log st q)"
    and "log_meta (on_window_close now (window_title a) st) q =
           (if q = p then Some \<lparr>created = Some (created_or st p
                 (session_start (hd (sessions st p @ [closed_session now a])))),
               last_changed = Some (strftime now)\<rparr>
            else log_meta st q)"
proof -
  define st2 where "st2 = st\<lparr>session_active := filter (\<lambda>(k, _). k \<noteq> p) (session_active st),
               sessions := (sessions st)(p := sessions st p @ [closed_session now a])\<rparr>"
  have eq: "on_window_close now (window_title a) st = save_session_log now p st2"
    unfolding st2_def using assms by (rule on_window_close_active)
  have s2: "sessions st2 = (sessions st)(p := sessions st p @ [closed_session now a])"
    and m2: "log_meta st2 = log_meta st" and f2: "files st2 = files st"
    by (simp_all add: st2_def)
  have t2: "saved_log_text st2 p now ss = saved_log_text st p now ss" for ss
    by (rule saved_log_text_cong) (simp add: m2)
  show "sessions (on_window_close now (window_title a) st) q =
           (if q = p then sessions st p @ [closed_session now a] else sessions st q)"
    by (simp add: eq s2)
  show "persisted_log (on_window_close now (window_title a) st) q =
           (if q = p then Some (saved_log_text st p now (sessions st p @ [closed_session now a]))
            else persisted_log st q)"
    by (simp add: eq persisted_save s2 t2 persisted_log_cong[OF f2])
  show "log_meta (on_window_close now (window_title a) st) q =
           (if q = p then Some \<lparr>created = Some (created_or st p
                 (session_start (hd (sessions st p @ [closed_session now a])))),
               last_changed = Some (strftime now)\<rparr>
            else log_meta st q)"
    by (simp add: eq log_meta_save s2 m2 created_or_cong[of st2 p st, OF fun_cong[OF m2]])
qed

lemma map_of_filter_notin:
  "map_of (filter (\<lambda>(k, _). k \<notin> S) xs) q = (if q \<in> S then None else map_of xs q)"
  by (induction xs) auto

lemma close_projs_effect:
  "tracker_inv st \<Longrightarrow> distinct ps \<Longrightarrow> set ps \<subseteq> fst ` set (session_active st) \<Longrightarrow>
   \<exists>st'. close_projs now ps st = Inr st' \<and> tracker_inv st' \<and>
     session_active st' = filter (\<lambda>(k, _). k \<notin> set ps) (session_active st) \<and>
     (\<forall>q. q \<in> set ps \<longrightarrow>
        sessions st' q = sessions st q @ [closed_session now (the (map_of (session_active st) q))] \<and>
        persisted_log st' q = Some (saved_log_text st q now (sessions st' q))) \<and>
     (\<forall>q. q \<notin> set ps \<longrightarrow>
        sessions st' q = sessions st q \<and> persisted_log st' q = persisted_log st q \<and>
        log_meta st' q = log_meta st q)"
proof (induction ps arbitrary: st)
  case Nil
  then show ?case by (simp add: filter_id_conv)
next
  case (Cons p ps)
  from Cons.prems obtain a where a: "map_of (session_active st) p = Some a"
    by (cases "map_of (session_active st) p") (auto simp: map_of_eq_None_iff)
  have ex: "extract_project_name (window_title a) = p"
    using Cons.prems(1) a by (rule tracker_inv_lookup)
  define st1 where "st1 = on_window_close now (window_title a) st"
  have act1: "session_active st1 = filter (\<lambda>(k, _). k \<noteq> p) (session_active st)"
    by (simp add: st1_def session_active_close ex)
  have inv1: "tracker_inv st1" using Cons.prems(1) by (simp add: st1_def tracker_inv_close)
  have sub1: "set ps \<subseteq> fst ` set (session_active st1)"
    using Cons.prems(2,3) by (force simp: act1)
  from Cons.IH[OF inv1 _ sub1] Cons.prems(2) obtain st' where st':
    "close_projs now ps st1 = Inr st'" "tracker_inv st'"
    "session_active st' = filter (\<lambda>(k, _). k \<notin> set ps) (session_active st1)"
    "\<forall>q. q \<in> set ps \<longrightarrow>
        sessions st' q = sessions st1 q @ [closed_session now (the (map_of (session_active st1) q))] \<and>
        persisted_log st' q = Some (saved_log_text st1 q now (sessions st' q))"
    "\<forall>q. q \<notin> set ps \<longrightarrow>
        sessions st' q = sessions st1 q \<and> persisted_log st' q = persisted_log st1 q \<and>
        log_meta st' q = log_meta st1 q"
    by auto
  have run: "close_projs now (p # ps) st = Inr st'"
    using a st'(1) by (simp add: st1_def)
  have act: "session_active st' = filter (\<lambda>(k, _). k \<notin> set (p # ps)) (session_active st)"
    by (auto simp: st'(3) act1 intro: filter_cong)
  have inps: "sessions st' q = sessions st q @ [closed_session now (the (map_of (session_active st) q))] \<and>
        persisted_log st' q = Some (saved_log_text st q now (sessions st' q))"
    if q: "q \<in> set (p # ps)" for q
  proof (cases "q = p")
    case True
    then have "q \<notin> set ps" using Cons.prems(2) by simp
    then have "sessions st' q = sessions st1 q" "persisted_log st' q = persisted_log st1 q"
      using st'(5) by auto
    then show ?thesis using True a close_active[OF a ex, of now p]
      by (simp add: st1_def)
  next
    case False
    then have qps: "q \<in> set ps" using q by simp
    have "sessions st1 q = sessions st q" "log_meta st1 q = log_meta st q"
      "map_of (session_active st1) q = map_of (session_active st) q"
      using False close_active[OF a ex, of now q] by (simp_all add: act1 map_of_filter_key) (simp_all add: st1_def)
    then show ?thesis using st'(4) qps saved_log_text_cong[of st1 q st now] by simp
  qed
  have notin: "sessions st' q = sessions st q \<and> persisted_log st' q = persisted_log st q \<and>
        log_meta st' q = log_meta st q" if q: "q \<notin> set (p # ps)" for q
  proof -
    from q have "q \<noteq> p" "q \<notin> set ps" by auto
    then show ?thesis using st'(5) close_active[OF a ex, of now q] by (simp add: st1_def)
  qed
  show ?case
  proof (intro exI[of _ st'] conjI allI impI)
    show "close_projs now (p # ps) st = Inr st'" by (rule run)
    show "tracker_inv st'" by (rule st'(2))
    show "session_active st' = filter (\<lambda>(k, _). k \<notin> set (p # ps)) (session_active st)" by (rule act)
  qed (use inps notin in blast)+
qed

section \<open>Properties of one polling cycle and of the loop\<close>

lemma map_of_snoc:
  "map_of (xs @ [(k, v)]) p = (case map_of xs p of Some a \<Rightarrow> Some a | None \<Rightarrow> if p = k then Some v else None)"
  by (induction xs) auto

lemma tracker_inv_open: "tracker_inv st \<Longrightarrow> tracker_inv (on_window_open now w st)"
  by (auto simp: tracker_inv_def on_window_open_def Let_def map_of_eq_None_iff)

lemma on_window_open_frame [simp]:
  "sessions (on_window_open now w st) = sessions st"
  "files (on_window_open now w st) = files st"
  "log_meta (on_window_open now w st) = log_meta st"
  by (simp_all add: on_window_open_def Let_def)

lemma map_of_open:
  "map_of (session_active (on_window_open now w st)) p =
     (case map_of (session_active st) p of
        Some a \<Rightarrow> Some a
      | None \<Rightarrow> if p = extract_project_name w then Some \<lparr>start = now, window_title = w\<rparr> else None)"
  by (auto simp: on_window_open_def Let_def map_add_def split: option.splits)

lemma track_starts_effect:
  "tracker_inv st \<Longrightarrow>
   \<exists>st'. track_starts now ws (T, st) =
           (T \<union> extract_project_name ` {w \<in> set ws. is_tracked w}, st') \<and>
     tracker_inv st' \<and> sessions st' = sessions st \<and> files st' = files st \<and>
     log_meta st' = log_meta st \<and>
     (\<forall>p. map_of (session_active st') p =
        (case map_of (session_active st) p of
           Some a \<Rightarrow> Some a
         | None \<Rightarrow> (case observed_titles p ws of
                      [] \<Rightarrow> None
                    | w # _ \<Rightarrow> Some \<lparr>start = now, window_title = w\<rparr>)))"
proof (induction ws arbitrary: T st)
  case Nil
  then show ?case by (simp add: observed_titles_def split: option.splits)
next
  case (Cons w ws)
  show ?case
  proof (cases "is_tracked w")
    case False
    from Cons.IH[OF Cons.prems, of T] obtain st' where st':
      "track_starts now ws (T, st) = (T \<union> extract_project_name ` {w \<in> set ws. is_tracked w}, st')"
      "tracker_inv st'" "sessions st' = sessions st" "files st' = files st"
      "log_meta st' = log_meta st"
      "\<forall>p. map_of (session_active st') p =
        (case map_of (session_active st) p of
           Some a \<Rightarrow> Some a
         | None \<Rightarrow> (case observed_titles p ws of
                      [] \<Rightarrow> None
                    | w # _ \<Rightarrow> Some \<lparr>start = now, window_title = w\<rparr>))"
      by blast
    have s: "{v \<in> set (w # ws). is_tracked v} = {v \<in> set ws. is_tracked v}"
      using False by auto
    have o: "observed_titles p (w # ws) = observed_titles p ws" for p
      using False by (simp add: observed_titles_def)
    show ?thesis
      using st' False unfolding s o
      by (intro exI[of _ st']) (simp add: Let_def)
  next
    case True
    define st1 where "st1 =
      (if map_of (session_active st) (extract_project_name w) = None
       then on_window_open now w st else st)"
    have inv1: "tracker_inv st1" using Cons.prems by (simp add: st1_def tracker_inv_open)
    have fr1: "sessions st1 = sessions st" "files st1 = files st" "log_meta st1 = log_meta st"
      by (simp_all add: st1_def)
    have m1: "map_of (session_active st1) p =
      (case map_of (session_active st) p of
         Some a \<Rightarrow> Some a
       | None \<Rightarrow> if p = extract_project_name w then Some \<lparr>start = now, window_title = w\<rparr> else None)"
      for p
      by (auto simp: st1_def map_of_open split: option.splits)
    from Cons.IH[OF inv1, of "insert (extract_project_name w) T"] obtain st' where st':
      "track_starts now ws (insert (extract_project_name w) T, st1) =
         (insert (extract_project_name w) T \<union> extract_project_name ` {w \<in> set ws. is_tracked w}, st')"
      "tracker_inv st'" "sessions st' = sessions st1" "files st' = files st1"
      "log_meta st' = log_meta st1"
      "\<forall>p. map_of (session_active st') p =
        (case map_of (session_active st1) p of
           Some a \<Rightarrow> Some a
         | None \<Rightarrow> (case observed_titles p ws of
                      [] \<Rightarrow> None
                    | w # _ \<Rightarrow> Some \<lparr>start = now, window_title = w\<rparr>))"
      by blast
    have s: "T \<union> extract_project_name ` {v \<in> set (w # ws). is_tracked v} =
        insert (extract_project_name w) T \<union> extract_project_name ` {v \<in> set ws. is_tracked v}"
      using True by auto
    have run: "track_starts now (w # ws) (T, st) =
        (T \<union> extract_project_name ` {v \<in> set (w # ws). is_tracked v}, st')"
      unfolding s using True st'(1) by (simp add: Let_def st1_def)
    have m: "map_of (session_active st') p =
        (case map_of (session_active st) p of
           Some a \<Rightarrow> Some a
         | None \<Rightarrow> (case observed_titles p (w # ws) of
                      [] \<Rightarrow> None
                    | w # _ \<Rightarrow> Some \<lparr>start = now, window_title = w\<rparr>))" for p
      using st'(6) True by (auto simp: m1 observed_titles_def split: option.splits)
    show ?thesis
      using run st'(2,3,4,5) fr1 m by (intro exI[of _ st']) simp
  qed
qed

lemma observed_titles_empty_iff:
  "observed_titles p ws = [] \<longleftrightarrow> p \<notin> extract_project_name ` {w \<in> set ws. is_tracked w}"
  by (auto simp: observed_titles_def filter_empty_conv)

lemma poll_cycle_effect:
  assumes "tracker_inv st" "get_all_open_windows en = Inr ws"
  shows "\<exists>st'. poll_cycle now en st = Inr st' \<and> tracker_inv st' \<and>
    (\<forall>p. map_of (session_active st') p =
       (if observed_titles p ws = [] then None
        else (case map_of (session_active st) p of
                Some a \<Rightarrow> Some a
              | None \<Rightarrow> Some \<lparr>start = now, window_title = hd (observed_titles p ws)\<rparr>))) \<and>
    (\<forall>p. sessions st' p =
       (case map_of (session_active st) p of
          Some a \<Rightarrow> if observed_titles p ws = [] then sessions st p @ [closed_session now a]
                    else sessions st p
        | None \<Rightarrow> sessions st p))"
proof -
  define T where "T = extract_project_name ` {w \<in> set ws. is_tracked w}"
  from track_starts_effect[OF assms(1), of now ws "{}"] obtain st1 where st1:
    "track_starts now ws ({}, st) = (T, st1)" "tracker_inv st1" "sessions st1 = sessions st"
    "\<forall>p. map_of (session_active st1) p =
        (case map_of (session_active st) p of
           Some a \<Rightarrow> Some a
         | None \<Rightarrow> (case observed_titles p ws of
                      [] \<Rightarrow> None
                    | w # _ \<Rightarrow> Some \<lparr>start = now, window_title = w\<rparr>))"
    unfolding T_def by auto
  define ps where "ps = filter (\<lambda>proj. proj \<notin> T) (map fst (session_active st1))"
  have d: "distinct ps" using st1(2) by (simp add: ps_def tracker_inv_def)
  have sub: "set ps \<subseteq> fst ` set (session_active st1)" by (auto simp: ps_def)
  from close_projs_effect[OF st1(2) d sub, of now] obtain st' where st':
    "close_projs now ps st1 = Inr st'" "tracker_inv st'"
    "session_active st' = filter (\<lambda>(k, _). k \<notin> set ps) (session_active st1)"
    "\<forall>q. q \<in> set ps \<longrightarrow>
        sessions st' q = sessions st1 q @ [closed_session now (the (map_of (session_active st1) q))]"
    "\<forall>q. q \<notin> set ps \<longrightarrow> sessions st' q = sessions st1 q"
    by blast
  have run: "poll_cycle now en st = Inr st'"
    using assms(2) st1(1) st'(1) by (simp add: poll_cycle_def ps_def)
  have inps: "p \<in> set ps \<longleftrightarrow> map_of (session_active st1) p \<noteq> None \<and> observed_titles p ws = []" for p
    by (auto simp: ps_def observed_titles_empty_iff T_def map_of_eq_None_iff)
  have act: "map_of (session_active st') p =
       (if observed_titles p ws = [] then None
        else (case map_of (session_active st) p of
                Some a \<Rightarrow> Some a
              | None \<Rightarrow> Some \<lparr>start = now, window_title = hd (observed_titles p ws)\<rparr>))" for p
    using st1(4)[rule_format, of p] inps[of p]
    by (auto simp: st'(3) map_of_filter_notin split: option.splits list.splits)
  have ses: "sessions st' p =
       (case map_of (session_active st) p of
          Some a \<Rightarrow> if observed_titles p ws = [] then sessions st p @ [closed_session now a]
                    else sessions st p
        | None \<Rightarrow> sessions st p)" for p
    using st1(4)[rule_format, of p] inps[of p] st'(4)[rule_format, of p] st'(5)[rule_format, of p]
    by (auto simp: st1(3) split: option.splits list.splits)
  show ?thesis using run st'(2) act ses by (intro exI[of _ st']) simp
qed

lemma run_append:
  "run (evs @ evs') st = (case run evs st of Polling st' \<Rightarrow> run evs' st' | other \<Rightarrow> other)"
proof (induction evs arbitrary: st)
  case Nil
  then show ?case by simp
next
  case (Cons ev evs)
  then show ?case by (cases ev) (simp_all split: sum.splits)
qed

lemma poll_cycle_inv:
  "tracker_inv st \<Longrightarrow> poll_cycle now en st = Inr st' \<Longrightarrow> tracker_inv st'"
proof (cases "get_all_open_windows en")
  case (Inl e)
  assume "poll_cycle now en st = Inr st'"
  with Inl show ?thesis by (simp add: poll_cycle_def)
next
  case (Inr ws)
  assume "tracker_inv st" "poll_cycle now en st = Inr st'"
  with poll_cycle_effect[OF \<open>tracker_inv st\<close> Inr, of now] show ?thesis by auto
qed

lemma shutdown_effect:
  assumes "tracker_inv st"
  shows "\<exists>st'. shutdown now st = Inr st' \<and> tracker_inv st' \<and> session_active st' = [] \<and>
     (\<forall>q. q \<in> fst ` set (session_active st) \<longrightarrow>
        sessions st' q = sessions st q @ [closed_session now (the (map_of (session_active st) q))] \<and>
        persisted_log st' q = Some (saved_log_text st q now (sessions st' q))) \<and>
     (\<forall>q. q \<notin> fst ` set (session_active st) \<longrightarrow>
        sessions st' q = sessions st q \<and> persisted_log st' q = persisted_log st q \<and>
        log_meta st' q = log_meta st q)"
proof -
  have d: "distinct (map fst (session_active st))" using assms by (simp add: tracker_inv_def)
  from close_projs_effect[OF assms d, of now] obtain st' where st':
    "close_projs now (map fst (session_active st)) st = Inr st'" "tracker_inv st'"
    "session_active st' = filter (\<lambda>(k, _). k \<notin> set (map fst (session_active st))) (session_active st)"
    "\<forall>q. q \<in> set (map fst (session_active st)) \<longrightarrow>
        sessions st' q = sessions st q @ [closed_session now (the (map_of (session_active st) q))] \<and>
        persisted_log st' q = Some (saved_log_text st q now (sessions st' q))"
    "\<forall>q. q \<notin> set (map fst (session_active st)) \<longrightarrow>
        sessions st' q = sessions st q \<and> persisted_log st' q = persisted_log st q \<and>
        log_meta st' q = log_meta st q"
    by auto
  have "session_active st' = []" unfolding st'(3) by (force simp: filter_empty_conv)
  then show ?thesis using st' by (intro exI[of _ st']) (simp add: shutdown_def)
qed

text \<open>
  From a state that satisfies the invariant, a cycle raises only when the enumeration
  does, and then before the tracker has changed.
\<close>

lemma poll_cycle_fails:
  assumes "tracker_inv st" "poll_cycle now en st = Inl (e, s)"
  shows "en = EnumFails \<and> e = WindowsError \<and> s = st"
proof (cases "get_all_open_windows en")
  case (Inl e')
  then have "en = EnumFails" "e' = WindowsError"
    by (auto simp: get_all_open_windows_def split: enumeration.splits)
  then show ?thesis using assms(2) Inl by (simp add: poll_cycle_def)
next
  case (Inr ws)
  from poll_cycle_effect[OF assms(1) Inr, of now] assms(2) show ?thesis by auto
qed

lemma run_inv: "tracker_inv st \<Longrightarrow> tracker_inv (tracker_of (run evs st))"
proof (induction evs arbitrary: st)
  case Nil
  then show ?case by simp
next
  case (Cons ev evs)
  show ?case
  proof (cases ev)
    case (Poll now en)
    show ?thesis
    proof (cases "poll_cycle now en st")
      case (Inl f)
      obtain e s where f: "f = (e, s)" by (cases f)
      then have "s = st" using poll_cycle_fails[OF Cons.prems, of now en e s] Inl by simp
      then show ?thesis using Poll Cons.prems Inl f by simp
    next
      case (Inr st')
      then have "tracker_inv st'" using Cons.prems by (simp add: poll_cycle_inv)
      then show ?thesis using Poll Inr Cons.IH by simp
    qed
  next
    case (Interrupt now)
    from shutdown_effect[OF Cons.prems, of now] obtain st' where
      "shutdown now st = Inr st'" "tracker_inv st'" by auto
    then show ?thesis using Interrupt by simp
  qed
qed

section \<open>Sessions across polling cycles\<close>

lemmas eval_defs =
  extract_project_name_def project_name_sanitized_def re_search_group1_def ustr_def
  is_dash_def isspace_def strip_def lstrip_def rstrip_def lstrip_chars_def
  re_sub_illegal_def illegal_chars_def
  is_tracked_def get_app_name_from_title_def app_keywords_def lower_def tracked_apps_def
  strftime_def zfill_def elapsed_seconds_def to_microseconds_def ymd2ord_def
  days_before_year_def days_before_month_def is_leap_def py_str_int_def
  writerow_def csv_field_def needs_quotes_def log_file_name_def header_lines_def
  session_row_def header_row_def log_file_text_def total_duration_def created_or_def save_session_log_def
  on_window_open_def on_window_close_def get_all_open_windows_def poll_cycle_def shutdown_def
  fresh_tracker_def at_10h_def proj_a_window_def Let_def

lemma observed_cycles_keep:
  "tracker_inv st \<Longrightarrow> map_of (session_active st) p = Some a \<Longrightarrow>
   \<forall>(t, en)\<in>set cycles. observed p en \<Longrightarrow>
   \<exists>st'. run (map (\<lambda>(t, en). Poll t en) cycles @ rest) st = run rest st' \<and> tracker_inv st' \<and>
         map_of (session_active st') p = Some a \<and> sessions st' p = sessions st p"
proof (induction cycles arbitrary: st)
  case Nil
  then show ?case by auto
next
  case (Cons c cycles)
  obtain t en where c: "c = (t, en)" by (cases c)
  from Cons.prems(3) c have "observed p en" by simp
  then obtain ws where ws: "get_all_open_windows en = Inr ws" "observed_titles p ws \<noteq> []"
    by (auto simp: observed_def split: sum.splits)
  from poll_cycle_effect[OF Cons.prems(1) ws(1), of t] obtain s1 where s1:
    "poll_cycle t en st = Inr s1" "tracker_inv s1"
    "map_of (session_active s1) p = Some a" "sessions s1 p = sessions st p"
    using ws(2) Cons.prems(2) by auto
  from Cons.IH[OF s1(2,3)] Cons.prems(3) obtain st' where
    "run (map (\<lambda>(t, en). Poll t en) cycles @ rest) s1 = run rest st'" "tracker_inv st'"
    "map_of (session_active st') p = Some a" "sessions st' p = sessions s1 p"
    by auto
  then show ?case using s1(1,4) c by (intro exI[of _ st']) simp
qed

text \<open>
  C2: when a project without active session is observed through a tracked application's
  window in a first cycle and in every cycle of a sequence that follows, and is absent in
  the cycle after them, the loop appends exactly one session to the project's history:
  it starts at the clock value of the first cycle, ends at the clock value of the cycle
  of the absence, lasts the whole seconds between the two, and carries the title of the
  first window observed; afterwards the project has no active session.
\<close>

theorem no_lost_close:
  assumes "tracker_inv st" and "map_of (session_active st) proj = None"
    and "get_all_open_windows en1 = Inr ws1" and "observed_titles proj ws1 = w1 # others"
    and "\<forall>(t, en)\<in>set cycles. observed proj en"
    and "get_all_open_windows en_last = Inr ws_last" and "observed_titles proj ws_last = []"
  shows "\<exists>st'. run (Poll t1 en1 # map (\<lambda>(t, en). Poll t en) cycles @ [Poll t_last en_last]) st
                 = Polling st' \<and>
     sessions st' proj = sessions st proj @
       [\<lparr>session_start = strftime t1, session_end = strftime t_last,
         session_duration_sec = elapsed_seconds t_last t1, session_window_title = w1\<rparr>] \<and>
     map_of (session_active st') proj = None"
proof -
  define a where "a = \<lparr>start = t1, window_title = w1\<rparr>"
  from poll_cycle_effect[OF assms(1,3), of t1] obtain s1 where s1:
    "poll_cycle t1 en1 st = Inr s1" "tracker_inv s1"
    "map_of (session_active s1) proj = Some a" "sessions s1 proj = sessions st proj"
    using assms(2,4) by (auto simp: a_def)
  from observed_cycles_keep[OF s1(2,3) assms(5), of "[Poll t_last en_last]"] obtain s2 where s2:
    "run (map (\<lambda>(t, en). Poll t en) cycles @ [Poll t_last en_last]) s1 = run [Poll t_last en_last] s2"
    "tracker_inv s2" "map_of (session_active s2) proj = Some a" "sessions s2 proj = sessions s1 proj"
    by auto
  from poll_cycle_effect[OF s2(2) assms(6), of t_last] obtain s3 where s3:
    "poll_cycle t_last en_last s2 = Inr s3"
    "map_of (session_active s3) proj = None"
    "sessions s3 proj = sessions s2 proj @ [closed_session t_last a]"
    using assms(7) s2(3) by auto
  have "run (Poll t1 en1 # map (\<lambda>(t, en). Poll t en) cycles @ [Poll t_last en_last]) st = Polling s3"
    using s1(1) s2(1) s3(1) by simp
  then show ?thesis using s3(2,3) s2(4) s1(4)
    by (intro exI[of _ s3]) (simp add: closed_session_def a_def)
qed

lemma fresh_tracker_inv: "tracker_inv fresh_tracker"
  by (simp add: tracker_inv_def fresh_tracker_def)

text \<open>
  The scenario of the specification: \<open>ProjA - Blender\<close> observed at 10:00:00, 10:00:20
  and 10:00:40, nothing at 10:01:00.
\<close>

theorem no_lost_close_witness:
  "\<exists>st'. run [Poll (at_10h 0 0) proj_a_window, Poll (at_10h 0 20) proj_a_window,
             Poll (at_10h 0 40) proj_a_window, Poll (at_10h 1 0) (Enumerates [])] fresh_tracker
          = Polling st' \<and>
     sessions st' (ustr ''ProjA'') =
       [\<lparr>session_start = ustr ''2024-01-01 10:00:00'', session_end = ustr ''2024-01-01 10:01:00'',
         session_duration_sec = 60, session_window_title = ustr ''ProjA - Blender''\<rparr>] \<and>
     map_of (session_active st') (ustr ''ProjA'') = None"
proof -
  have h2: "map_of (session_active fresh_tracker) (ustr ''ProjA'') = None"
    by (simp add: fresh_tracker_def)
  have h3: "get_all_open_windows proj_a_window = Inr [ustr ''ProjA - Blender'']"
    by (simp add: get_all_open_windows_def proj_a_window_def ustr_def)
  have tr: "is_tracked (ustr ''ProjA - Blender'')" 
    and ex: "extract_project_name (ustr ''ProjA - Blender'') = ustr ''ProjA''"
    by (simp_all add: eval_defs)
  have h4: "observed_titles (ustr ''ProjA'') [ustr ''ProjA - Blender''] = ustr ''ProjA - Blender'' # []"
    by (simp add: observed_titles_def tr ex)
  have ob: "observed (ustr ''ProjA'') proj_a_window"
    by (simp add: observed_def h3 h4)
  have h5: "\<forall>(t, en)\<in>set [(at_10h 0 20, proj_a_window), (at_10h 0 40, proj_a_window)].
      observed (ustr ''ProjA'') en"
    by (simp add: ob)
  have h6: "get_all_open_windows (Enumerates []) = Inr []"
    by (simp add: get_all_open_windows_def)
  have h7: "observed_titles (ustr ''ProjA'') [] = []"
    by (simp add: observed_titles_def)
  have v: "strftime (at_10h 0 0) = ustr ''2024-01-01 10:00:00''"
    "strftime (at_10h 1 0) = ustr ''2024-01-01 10:01:00''"
    "elapsed_seconds (at_10h 1 0) (at_10h 0 0) = 60"
    "sessions fresh_tracker (ustr ''ProjA'') = []"
    by (simp_all add: eval_defs)
  from no_lost_close[OF fresh_tracker_inv h2 h3 h4 h5 h6 h7, of "at_10h 0 0" "at_10h 1 0"]
  show ?thesis unfolding v by simp
qed

lemma no_active_inv: "session_active st = [] \<Longrightarrow> tracker_inv st"
  by (simp add: tracker_inv_def)

lemma first_cycle_state:
  "run [Poll (at_10h 0 0) proj_a_window] fresh_tracker =
     Polling (fresh_tracker\<lparr>session_active :=
       [(ustr ''ProjA'', \<lparr>start = at_10h 0 0, window_title = ustr ''ProjA - Blender''\<rparr>)]\<rparr>)"
  by (simp add: eval_defs)

section \<open>Failure of the window enumeration\<close>

text \<open>
  C7, as stated, against the source: the enumeration raises in the second cycle while
  \<open>ProjA\<close> has an active session. \<open>run\<close> does not treat the cycle as an empty
  observation and go on: the exception leaves the loop, the third cycle never happens,
  the session is still active, no session was emitted and no file written.
\<close>

theorem enumeration_failure_counterexample:
  "run [Poll (at_10h 0 0) proj_a_window, Poll (at_10h 0 20) EnumFails,
        Poll (at_10h 0 40) (Enumerates [])] fresh_tracker =
     Crashed WindowsError (tracker_of (run [Poll (at_10h 0 0) proj_a_window] fresh_tracker)) \<and>
   map fst (session_active (tracker_of (run [Poll (at_10h 0 0) proj_a_window] fresh_tracker))) =
     [ustr ''ProjA''] \<and>
   sessions (tracker_of (run [Poll (at_10h 0 0) proj_a_window] fresh_tracker)) (ustr ''ProjA'') = [] \<and>
   files (tracker_of (run [Poll (at_10h 0 0) proj_a_window] fresh_tracker)) = []"
  by (simp add: eval_defs)

text \<open>
  C7 (amended): if the window enumeration fails during a poll cycle, the exception
  leaves \<open>run\<close>: the loop ends with the tracker as it was before that cycle, so no active
  session is closed or saved, and no later cycle or interrupt is handled.
\<close>

theorem enumeration_failure_ends_loop:
  "run evs st = Polling st' \<Longrightarrow>
   run (evs @ Poll now EnumFails # evs') st = Crashed WindowsError st'"
  by (simp add: run_append poll_cycle_def get_all_open_windows_def)

theorem enumeration_failure_ends_loop_witness:
  "run ([Poll (at_10h 0 0) proj_a_window] @ Poll (at_10h 0 20) EnumFails #
        [Poll (at_10h 0 40) proj_a_window, Interrupt (at_10h 0 50)]) fresh_tracker =
     Crashed WindowsError (fresh_tracker\<lparr>session_active :=
       [(ustr ''ProjA'', \<lparr>start = at_10h 0 0, window_title = ustr ''ProjA - Blender''\<rparr>)]\<rparr>)"
  using enumeration_failure_ends_loop[OF first_cycle_state] .

section \<open>One active session per project\<close>

text \<open>
  C9: in every state the loop reaches from a tracker without active sessions, the keys
  of \<open>session_active\<close> are distinct, so a project has at most one active session; a cycle
  in which a project with an active session is observed leaves that session as it is,
  start time and window title included, and a cycle in which it is not observed removes
  it; \<open>on_window_open\<close> on a title of a project with an active session changes nothing.
\<close>

theorem one_active_session_per_project:
  assumes "session_active st0 = []" and "st = tracker_of (run evs st0)"
  shows "distinct (map fst (session_active st)) \<and>
    (\<forall>p a now en st'. map_of (session_active st) p = Some a \<and> poll_cycle now en st = Inr st' \<longrightarrow>
        map_of (session_active st') p = (if observed p en then Some a else None)) \<and>
    (\<forall>w a now. map_of (session_active st) (extract_project_name w) = Some a \<longrightarrow>
        on_window_open now w st = st)"
proof -
  have inv: "tracker_inv st" using assms by (simp add: run_inv no_active_inv)
  have 1: "distinct (map fst (session_active st))" using inv by (simp add: tracker_inv_def)
  have 2: "map_of (session_active st') p = (if observed p en then Some a else None)"
    if h: "map_of (session_active st) p = Some a" "poll_cycle now en st = Inr st'"
    for p a now en st'
  proof (cases "get_all_open_windows en")
    case (Inl e)
    then show ?thesis using h(2) by (simp add: poll_cycle_def)
  next
    case (Inr ws)
    from poll_cycle_effect[OF inv Inr, of now] h
    show ?thesis by (auto simp: observed_def Inr)
  qed
  have 3: "on_window_open now w st = st"
    if "map_of (session_active st) (extract_project_name w) = Some a" for w a now
    using that by (simp add: on_window_open_def)
  show ?thesis using 1 2 3 by blast
qed

theorem one_active_session_per_project_witness:
  "distinct (map fst (session_active (tracker_of (run [Poll (at_10h 0 0) proj_a_window] fresh_tracker)))) \<and>
   map_of (session_active (tracker_of (run [Poll (at_10h 0 0) proj_a_window,
       Poll (at_10h 0 20) (Enumerates [(True, ustr ''* ProjA - Blender 4.5'')])] fresh_tracker)))
     (ustr ''ProjA'') =
     Some \<lparr>start = at_10h 0 0, window_title = ustr ''ProjA - Blender''\<rparr>"
proof -
  have h1: "session_active fresh_tracker = []" by (simp add: fresh_tracker_def)
  define st where "st = tracker_of (run [Poll (at_10h 0 0) proj_a_window] fresh_tracker)"
  have st: "st = fresh_tracker\<lparr>session_active :=
       [(ustr ''ProjA'', \<lparr>start = at_10h 0 0, window_title = ustr ''ProjA - Blender''\<rparr>)]\<rparr>"
    by (simp only: st_def first_cycle_state tracker_of.simps)
  have a: "map_of (session_active st) (ustr ''ProjA'') =
      Some \<lparr>start = at_10h 0 0, window_title = ustr ''ProjA - Blender''\<rparr>"
    by (simp add: st)
  have tr: "is_tracked (ustr ''* ProjA - Blender 4.5'')"
    and ex: "extract_project_name (ustr ''* ProjA - Blender 4.5'') = ustr ''ProjA''"
    by (simp_all add: eval_defs)
  have ob: "observed (ustr ''ProjA'') (Enumerates [(True, ustr ''* ProjA - Blender 4.5'')])"
    by (simp add: observed_def get_all_open_windows_def observed_titles_def tr ex) (simp add: ustr_def)
  have inv: "tracker_inv st" by (simp add: st tracker_inv_def eval_defs)
  obtain st' where p: "poll_cycle (at_10h 0 20) (Enumerates [(True, ustr ''* ProjA - Blender 4.5'')]) st = Inr st'"
    using poll_cycle_effect[OF inv, of "Enumerates [(True, ustr ''* ProjA - Blender 4.5'')]" _ "at_10h 0 20"]
    by (auto simp: get_all_open_windows_def)
  note T = one_active_session_per_project[OF h1 st_def]
  have d: "distinct (map fst (session_active st))" using T by (rule conjunct1)
  have "map_of (session_active st') (ustr ''ProjA'') =
      (if observed (ustr ''ProjA'') (Enumerates [(True, ustr ''* ProjA - Blender 4.5'')])
       then Some \<lparr>start = at_10h 0 0, window_title = ustr ''ProjA - Blender''\<rparr> else None)"
    using conjunct1[OF conjunct2[OF T]] a p by blast
  then have m: "map_of (session_active st') (ustr ''ProjA'') =
      Some \<lparr>start = at_10h 0 0, window_title = ustr ''ProjA - Blender''\<rparr>"
    using ob by simp
  have e: "tracker_of (run [Poll (at_10h 0 0) proj_a_window,
       Poll (at_10h 0 20) (Enumerates [(True, ustr ''* ProjA - Blender 4.5'')])] fresh_tracker) = st'"
    using p run_append[of "[Poll (at_10h 0 0) proj_a_window]"
        "[Poll (at_10h 0 20) (Enumerates [(True, ustr ''* ProjA - Blender 4.5'')])]" fresh_tracker]
    unfolding first_cycle_state st[symmetric] by simp
  show ?thesis using d m unfolding e st_def by simp
qed

section \<open>Closing a window without active session\<close>

text \<open>
  C10: \<open>on_window_close\<close> on a title whose project has no active session returns the
  tracker unchanged: active sessions, histories, metadata and files.
\<close>

theorem close_without_active_session_is_noop:
  "map_of (session_active st) (extract_project_name wtitle) = None \<Longrightarrow>
   on_window_close now wtitle st = st"
  by (simp add: on_window_close_def)

theorem close_without_active_session_is_noop_witness:
  "map_of (session_active (tracker_of (run [Poll (at_10h 0 0) proj_a_window] fresh_tracker)))
     (extract_project_name (ustr ''Other - Revit'')) = None \<and>
   on_window_close (at_10h 0 30) (ustr ''Other - Revit'')
     (tracker_of (run [Poll (at_10h 0 0) proj_a_window] fresh_tracker)) =
   tracker_of (run [Poll (at_10h 0 0) proj_a_window] fresh_tracker)"
proof -
  have h: "map_of (session_active (tracker_of (run [Poll (at_10h 0 0) proj_a_window] fresh_tracker)))
     (extract_project_name (ustr ''Other - Revit'')) = None"
    by (simp add: first_cycle_state) (simp add: eval_defs)
  from close_without_active_session_is_noop[OF h] h show ?thesis by simp
qed

section \<open>Properties of the log files\<close>

subsection \<open>Text\<close>

lemma universal_newlines_Cons: "c \<noteq> 13 \<Longrightarrow> universal_newlines (c # s) = c # universal_newlines s"
  by (cases s) simp_all

lemma universal_newlines_append:
  "13 \<notin> set a \<Longrightarrow> universal_newlines (a @ b) = a @ universal_newlines b"
  by (induction a) (simp_all add: universal_newlines_Cons)

lemma universal_newlines_crlf: "universal_newlines (13 # 10 # s) = 10 # universal_newlines s"
  by simp

lemma universal_newlines_id: "13 \<notin> set a \<Longrightarrow> universal_newlines a = a"
  using universal_newlines_append[of a "[]"] by simp

lemma split_lines_line:
  "10 \<notin> set a \<Longrightarrow> split_lines cur (a @ 10 # rest) = (cur @ a @ [10]) # split_lines [] rest"
  by (induction a arbitrary: cur) simp_all

lemma universal_newlines_lf_lines:
  "\<forall>l\<in>set ls. line_free l \<Longrightarrow>
   universal_newlines (concat (map (\<lambda>l. l @ [10]) ls) @ t) =
   concat (map (\<lambda>l. l @ [10]) ls) @ universal_newlines t"
  by (rule universal_newlines_append) (auto simp: line_free_def)

lemma universal_newlines_crlf_lines:
  "\<forall>l\<in>set ls. line_free l \<Longrightarrow>
   universal_newlines (concat (map (\<lambda>l. l @ [13, 10]) ls)) = concat (map (\<lambda>l. l @ [10]) ls)"
proof (induction ls)
  case Nil
  then show ?case by simp
next
  case (Cons l ls)
  then have "13 \<notin> set l" by (simp add: line_free_def)
  then have "universal_newlines (l @ 13 # 10 # concat (map (\<lambda>l. l @ [13, 10]) ls)) =
      l @ universal_newlines (13 # 10 # concat (map (\<lambda>l. l @ [13, 10]) ls))"
    by (rule universal_newlines_append)
  then show ?case using Cons by simp
qed

lemma split_lines_lines:
  "\<forall>l\<in>set ls. line_free l \<Longrightarrow>
   split_lines [] (concat (map (\<lambda>l. l @ [10]) ls)) = map (\<lambda>l. l @ [10]) ls"
proof (induction ls)
  case Nil
  then show ?case by simp
next
  case (Cons l ls)
  then have "10 \<notin> set l" by (simp add: line_free_def)
  from split_lines_line[OF this, of "[]" "concat (map (\<lambda>l. l @ [10]) ls)"] Cons
  show ?case by simp
qed

text \<open>
  A file written as lines that end in LF followed by rows that end in CR LF reads back
  as these lines and rows, each ending in LF.
\<close>

lemma file_lines_written:
  assumes "\<forall>l\<in>set hs. line_free l" "\<forall>l\<in>set bs. line_free l"
  shows "file_lines (concat (map (\<lambda>l. l @ [10]) hs) @ concat (map (\<lambda>l. l @ [13, 10]) bs)) =
         map (\<lambda>l. l @ [10]) (hs @ bs)"
proof -
  have "universal_newlines (concat (map (\<lambda>l. l @ [10]) hs) @ concat (map (\<lambda>l. l @ [13, 10]) bs)) =
        concat (map (\<lambda>l. l @ [10]) (hs @ bs))"
    using assms by (simp add: universal_newlines_lf_lines universal_newlines_crlf_lines)
  moreover have "\<forall>l\<in>set (hs @ bs). line_free l" using assms by auto
  ultimately show ?thesis by (simp only: file_lines_def split_lines_lines)
qed

subsection \<open>Stripping\<close>

lemma strip_id:
  "s \<noteq> [] \<Longrightarrow> \<not> isspace (hd s) \<Longrightarrow> \<not> isspace (last s) \<Longrightarrow> strip s = s"
proof -
  assume s: "s \<noteq> []" "\<not> isspace (hd s)" "\<not> isspace (last s)"
  then have 1: "dropWhile isspace s = s" by (cases s) auto
  obtain b l where bl: "s = b @ [l]" using s(1) by (cases s rule: rev_cases) auto
  have 2: "dropWhile isspace (rev s) = rev s" using s(3) by (simp add: bl)
  show ?thesis by (simp add: strip_def lstrip_def rstrip_def 1 2)
qed

lemma rstrip_decomp: "\<exists>w. (\<forall>c\<in>set w. isspace c) \<and> y = rstrip y @ w"
proof -
  have "rev y = takeWhile isspace (rev y) @ dropWhile isspace (rev y)" by simp
  then have "y = rev (dropWhile isspace (rev y)) @ rev (takeWhile isspace (rev y))"
    by (metis rev_append rev_rev_ident)
  moreover have "\<forall>c\<in>set (rev (takeWhile isspace (rev y))). isspace c"
    by (auto dest: set_takeWhileD)
  ultimately show ?thesis unfolding rstrip_def by blast
qed

lemma strip_rstrip: "strip (rstrip y) = strip y"
proof -
  from rstrip_decomp[of y] obtain w where w: "\<forall>c\<in>set w. isspace c" "y = rstrip y @ w" by blast
  have "strip y = strip (rstrip y @ w)" using w(2) by simp
  also have "\<dots> = strip (rstrip y)" using w(1) by (rule strip_append_space)
  finally show ?thesis by simp
qed

lemma rstrip_after_colon: "rstrip (p @ 58 # y) = p @ 58 # rstrip y"
proof -
  have "dropWhile isspace (rev y @ 58 # rev p) = dropWhile isspace (rev y) @ 58 # rev p"
  proof (cases "\<forall>c\<in>set (rev y). isspace c")
    case True
    then show ?thesis by (simp add: dropWhile_all dropWhile_all_append isspace_def)
  next
    case False
    then show ?thesis by (auto simp: dropWhile_append1)
  qed
  then show ?thesis by (simp add: rstrip_def)
qed

text \<open>What the loader reads back from a metadata line.\<close>

lemma after_colon_line:
  assumes "p \<noteq> []" "\<not> isspace (hd p)" "58 \<notin> set p"
  shows "after_colon (p @ 58 # 32 # c @ [10]) = strip c"
proof -
  have l: "lstrip (p @ 58 # 32 # c @ [10]) = p @ 58 # 32 # c @ [10]"
    using assms(1,2) by (cases p) (simp_all add: lstrip_def)
  have d: "dropWhile (\<lambda>c. c \<noteq> 58) (p @ 58 # z) = 58 # z" for z
    using assms(3) by (induction p) auto
  have "after_colon (p @ 58 # 32 # c @ [10]) = strip (rstrip (32 # c @ [10]))"
    by (simp add: after_colon_def strip_def l rstrip_after_colon d)
  also have "\<dots> = strip ((32 # c) @ [10])" by (simp add: strip_rstrip)
  also have "\<dots> = strip (32 # c)" by (rule strip_append_space) (simp add: isspace_def)
  also have "\<dots> = strip c" by (simp add: strip_def lstrip_def isspace_def)
  finally show ?thesis .
qed

subsection \<open>Integers\<close>

declare dec.simps [simp del]

lemma dec_digits: "\<forall>c\<in>set (dec n). is_digit c"
proof (induction n rule: dec.induct)
  case (1 n)
  show ?case
  proof (cases "n < 10")
    case True
    then show ?thesis by (subst dec.simps) (simp add: is_digit_def)
  next
    case False
    then have "\<forall>c\<in>set (dec (n div 10)). is_digit c" by (rule 1)
    moreover have "is_digit (48 + n mod 10)" by (simp add: is_digit_def)
    ultimately show ?thesis using False by (subst dec.simps) simp
  qed
qed

lemma dec_nonempty: "dec n \<noteq> []"
  by (subst dec.simps) simp

lemma parse_digits_append:
  "\<forall>c\<in>set xs. is_digit c \<Longrightarrow>
   parse_digits acc (xs @ ys) = parse_digits (foldl (\<lambda>a c. 10 * a + (c - 48)) acc xs) ys"
  by (induction xs arbitrary: acc) simp_all

lemma foldl_dec: "foldl (\<lambda>a c. 10 * a + (c - 48)) acc (dec n) = acc * 10 ^ length (dec n) + n"
proof (induction n arbitrary: acc rule: dec.induct)
  case (1 n)
  show ?case
  proof (cases "n < 10")
    case True
    then show ?thesis by (subst (1 2) dec.simps) simp
  next
    case False
    have "foldl (\<lambda>a c. 10 * a + (c - 48)) acc (dec (n div 10)) =
        acc * 10 ^ length (dec (n div 10)) + n div 10"
      using False by (rule 1)
    then show ?thesis using False by (subst (1 2) dec.simps) (simp add: algebra_simps)
  qed
qed

lemma parse_digits_dec: "parse_digits 0 (dec n) = Some n"
  using parse_digits_append[OF dec_digits, of 0 n "[]"] by (simp add: foldl_dec)

lemma parse_unsigned_dec: "parse_unsigned (dec n) = Some n"
proof -
  obtain c cs where c: "dec n = c # cs" using dec_nonempty[of n] by (cases "dec n") auto
  then have "is_digit c" using dec_digits[of n] by simp
  then show ?thesis using c parse_digits_dec[of n] by (simp add: parse_unsigned_def)
qed

lemma digit_not_space: "is_digit c \<Longrightarrow> \<not> isspace c"
  by (auto simp: is_digit_def isspace_def)

lemma strip_dec: "strip (dec n) = dec n"
proof (rule strip_id)
  show "dec n \<noteq> []" by (rule dec_nonempty)
  have "hd (dec n) \<in> set (dec n)" "last (dec n) \<in> set (dec n)"
    using dec_nonempty by simp_all
  then show "\<not> isspace (hd (dec n))" "\<not> isspace (last (dec n))"
    using dec_digits digit_not_space by blast+
qed

lemma strip_minus_dec: "strip (45 # dec n) = 45 # dec n"
proof (rule strip_id)
  show "45 # dec n \<noteq> []" by simp
  show "\<not> isspace (hd (45 # dec n))" by (simp add: isspace_def)
  have "last (dec n) \<in> set (dec n)" using dec_nonempty by simp
  then have "\<not> isspace (last (dec n))" using dec_digits digit_not_space by blast
  then show "\<not> isspace (last (45 # dec n))" using dec_nonempty by simp
qed

text \<open>\<open>int(str(i)) = i\<close>\<close>

lemma py_int_py_str_int: "py_int (py_str_int i) = Some i"
proof (cases "i < 0")
  case True
  then show ?thesis
    by (simp add: py_int_def py_str_int_def strip_minus_dec parse_unsigned_dec)
next
  case False
  obtain c cs where c: "dec (nat i) = c # cs"
    using dec_nonempty[of "nat i"] by (cases "dec (nat i)") auto
  then have "is_digit c" using dec_digits[of "nat i"] by simp
  then have "c \<noteq> 45" "c \<noteq> 43" by (auto simp: is_digit_def)
  moreover have "parse_unsigned (c # cs) = Some (nat i)" using parse_unsigned_dec[of "nat i"] c by simp
  ultimately show ?thesis using False c strip_dec[of "nat i"]
    by (simp add: py_int_def py_str_int_def)
qed

lemma line_free_dec: "line_free (dec n)"
  using dec_digits[of n] by (auto simp: line_free_def is_digit_def)

lemma line_free_py_str_int: "line_free (py_str_int i)"
  using line_free_dec by (simp add: py_str_int_def line_free_def)

subsection \<open>Reading back what the writer wrote\<close>

lemma feed_append:
  "feed r (a @ b) = (case feed r a of Inl e \<Rightarrow> Inl e | Inr r' \<Rightarrow> feed r' b)"
  by (induction a arbitrary: r) (simp_all split: sum.splits)

lemma feed_in_field:
  "state r = IN_FIELD \<Longrightarrow> \<forall>c\<in>set g. c \<noteq> 44 \<and> c \<noteq> 10 \<and> c \<noteq> 13 \<Longrightarrow>
   length (field r) + length g \<le> field_limit \<Longrightarrow>
   feed r g = Inr (r\<lparr>field := field r @ g\<rparr>)"
proof (induction g arbitrary: r)
  case Nil
  then show ?case by simp
next
  case (Cons c g)
  let ?r = "r\<lparr>field := field r @ [c]\<rparr>"
  have step: "parse_process_char r (Some c) = Inr ?r"
    using Cons.prems by (simp add: parse_process_char_def parse_add_char_def)
  have "feed ?r g = Inr (?r\<lparr>field := field ?r @ g\<rparr>)"
    using Cons.prems by (intro Cons.IH) simp_all
  then show ?case using step by simp
qed

lemma feed_in_quoted:
  "state r = IN_QUOTED_FIELD \<Longrightarrow> length (field r) + length g \<le> field_limit \<Longrightarrow>
   feed r (concat (map (\<lambda>c. if c = 34 then [34, 34] else [c]) g)) = Inr (r\<lparr>field := field r @ g\<rparr>)"
proof (induction g arbitrary: r)
  case Nil
  then show ?case by simp
next
  case (Cons c g)
  let ?r = "r\<lparr>field := field r @ [c]\<rparr>"
  have step: "feed r (if c = 34 then [34, 34] else [c]) = Inr ?r"
    using Cons.prems by (simp add: parse_process_char_def parse_add_char_def)
  have "feed ?r (concat (map (\<lambda>c. if c = 34 then [34, 34] else [c]) g)) =
      Inr (?r\<lparr>field := field ?r @ g\<rparr>)"
    using Cons.prems by (intro Cons.IH) simp_all
  then show ?case using step by (simp add: feed_append)
qed

text \<open>
  From the start of a field, the text of a written field followed by a delimiter or a
  line feed stores the field.
\<close>

lemma feed_field:
  assumes "state r = START_FIELD" "field r = []" "line_free f" "length f \<le> field_limit"
    and "d = 44 \<or> d = 10"
  shows "feed r (csv_field f @ [d]) =
         Inr (r\<lparr>state := (if d = 44 then START_FIELD else EAT_CRNL),
                field_list := field_list r @ [f]\<rparr>)"
proof (cases "needs_quotes f")
  case True
  let ?q = "r\<lparr>state := IN_QUOTED_FIELD\<rparr>"
  have 1: "parse_process_char r (Some 34) = Inr ?q"
    using assms(1) by (simp add: parse_process_char_def start_field_def)
  have 2: "feed ?q (concat (map (\<lambda>c. if c = 34 then [34, 34] else [c]) f)) =
      Inr (?q\<lparr>field := field ?q @ f\<rparr>)"
    using assms by (intro feed_in_quoted) simp_all
  have 3: "feed (?q\<lparr>field := field ?q @ f\<rparr>) [34, d] =
      Inr (r\<lparr>state := (if d = 44 then START_FIELD else EAT_CRNL),
              field_list := field_list r @ [f]\<rparr>)"
    using assms(2,5) by (auto simp: parse_process_char_def parse_save_field_def)
  have "csv_field f @ [d] =
      34 # concat (map (\<lambda>c. if c = 34 then [34, 34] else [c]) f) @ [34, d]"
    using True by (simp add: csv_field_def)
  then show ?thesis using 1 2 3 by (simp add: feed_append)
next
  case False
  then have plain: "\<forall>c\<in>set f. c \<noteq> 44 \<and> c \<noteq> 34 \<and> c \<noteq> 10 \<and> c \<noteq> 13"
    by (auto simp: needs_quotes_def)
  have cf: "csv_field f = f" using False by (simp add: csv_field_def)
  show ?thesis
  proof (cases f)
    case Nil
    then show ?thesis using assms(1,2,5) cf
      by (auto simp: parse_process_char_def start_field_def parse_save_field_def)
  next
    case (Cons c g)
    let ?i = "r\<lparr>field := [c], state := IN_FIELD\<rparr>"
    have 1: "parse_process_char r (Some c) = Inr ?i"
      using assms(1,2) plain Cons
      by (simp add: parse_process_char_def start_field_def parse_add_char_def field_limit_def)
    have 2: "feed ?i g = Inr (?i\<lparr>field := field ?i @ g\<rparr>)"
      using assms(4) plain Cons by (intro feed_in_field) simp_all
    have 3: "parse_process_char (?i\<lparr>field := field ?i @ g\<rparr>) (Some d) =
      Inr (r\<lparr>state := (if d = 44 then START_FIELD else EAT_CRNL),
              field_list := field_list r @ [f]\<rparr>)"
      using assms(2,5) Cons by (auto simp: parse_process_char_def parse_save_field_def)
    show ?thesis using 1 2 3 cf Cons by (simp add: feed_append)
  qed
qed

lemma feed_row:
  "fs \<noteq> [] \<Longrightarrow> state r = START_FIELD \<Longrightarrow> field r = [] \<Longrightarrow>
   \<forall>f\<in>set fs. line_free f \<and> length f \<le> field_limit \<Longrightarrow>
   feed r (csv_join fs @ [10]) = Inr (r\<lparr>state := EAT_CRNL, field_list := field_list r @ fs\<rparr>)"
proof (induction fs arbitrary: r rule: csv_join.induct)
  case 1
  then show ?case by simp
next
  case (2 f)
  then show ?case using feed_field[of r f 10] by simp
next
  case (3 f g fs)
  let ?r = "r\<lparr>field_list := field_list r @ [f]\<rparr>"
  have 1: "feed r (csv_field f @ [44]) = Inr ?r"
    using 3(2-) feed_field[of r f 44] by simp
  have 2: "feed ?r (csv_join (g # fs) @ [10]) =
      Inr (?r\<lparr>state := EAT_CRNL, field_list := field_list ?r @ g # fs\<rparr>)"
    using 3(2-) by (intro 3(1)) simp_all
  have "csv_join (f # g # fs) @ [10] = (csv_field f @ [44]) @ (csv_join (g # fs) @ [10])"
    by simp
  then show ?case using 1 2 by (simp only: feed_append) simp
qed

lemma set_csv_field: "set (csv_field f) \<subseteq> insert 34 (set f)"
  by (auto simp: csv_field_def split: if_splits)

lemma line_free_csv_join: "\<forall>f\<in>set fs. line_free f \<Longrightarrow> line_free (csv_join fs)"
proof (induction fs rule: csv_join.induct)
  case 1
  then show ?case by (simp add: line_free_def)
next
  case (2 f)
  then show ?case using set_csv_field[of f] by (auto simp: line_free_def)
next
  case (3 f g fs)
  then show ?case using set_csv_field[of f] by (auto simp: line_free_def)
qed

lemma csv_join_nonempty: "length fs \<ge> 2 \<Longrightarrow> csv_join fs \<noteq> []"
  by (induction fs rule: csv_join.induct) simp_all

text \<open>One written row of at least two fields is one record of the reader.\<close>

lemma feed_line_row:
  assumes "length fs \<ge> 2" "\<forall>f\<in>set fs. line_free f \<and> length f \<le> field_limit"
  shows "feed_line parse_reset (csv_join fs @ [10]) =
         Inr \<lparr>state = START_RECORD, field = [], field_list = fs\<rparr>"
proof -
  obtain c cs where c: "csv_join fs = c # cs"
    using csv_join_nonempty[OF assms(1)] by (cases "csv_join fs") auto
  have "line_free (csv_join fs)" using assms(2) by (simp add: line_free_csv_join)
  then have cn: "c \<noteq> 10" "c \<noteq> 13" using c by (auto simp: line_free_def)
  let ?s = "parse_reset\<lparr>state := START_FIELD\<rparr>"
  have first: "parse_process_char parse_reset (Some c) = parse_process_char ?s (Some c)"
    using cn by (simp add: parse_process_char_def parse_reset_def)
  have "feed parse_reset (csv_join fs @ [10]) = feed ?s (csv_join fs @ [10])"
    using first by (simp add: c)
  also have "\<dots> = Inr (?s\<lparr>state := EAT_CRNL, field_list := field_list ?s @ fs\<rparr>)"
    using assms by (intro feed_row) (auto simp: parse_reset_def)
  finally show ?thesis
    by (simp add: feed_line_def parse_process_char_def parse_reset_def)
qed

lemma read_rows_written:
  "\<forall>fs\<in>set rows. length fs \<ge> 2 \<and> (\<forall>f\<in>set fs. line_free f \<and> length f \<le> field_limit) \<Longrightarrow>
   read_rows parse_reset (map (\<lambda>fs. csv_join fs @ [10]) rows) = (rows, None)"
proof (induction rows)
  case Nil
  then show ?case by (simp add: parse_reset_def)
next
  case (Cons fs rows)
  then have "feed_line parse_reset (csv_join fs @ [10]) =
         Inr \<lparr>state = START_RECORD, field = [], field_list = fs\<rparr>"
    by (intro feed_line_row) simp_all
  then show ?case using Cons by simp
qed

subsection \<open>Loading a saved log\<close>

lemma line_free_zfill: "line_free s \<Longrightarrow> line_free (zfill w s)"
  by (auto simp: zfill_def line_free_def)

lemma line_free_append [simp]: "line_free (a @ b) \<longleftrightarrow> line_free a \<and> line_free b"
  by (auto simp: line_free_def)

lemma line_free_Cons [simp]: "line_free (c # s) \<longleftrightarrow> c \<noteq> 10 \<and> c \<noteq> 13 \<and> line_free s"
  by (auto simp: line_free_def)

lemma line_free_Nil [simp]: "line_free []"
  by (simp add: line_free_def)

lemma line_free_strftime: "line_free (strftime t)"
  by (simp add: strftime_def line_free_zfill line_free_dec)

lemma line_free_header_lines:
  "line_free c \<Longrightarrow> line_free lc \<Longrightarrow> \<forall>l\<in>set (header_lines c lc tot). line_free l"
  by (simp add: header_lines_def line_free_py_str_int) (simp add: line_free_def ustr_def)

lemma header_row_ok:
  "length header_row \<ge> 2 \<and> (\<forall>f\<in>set header_row. line_free f \<and> length f \<le> field_limit)"
  by (simp add: header_row_def ustr_def line_free_def field_limit_def)

lemma csv_join_header_row:
  "csv_join header_row = ustr ''session_start,session_end,session_duration_sec,window_title''"
  by (simp add: header_row_def ustr_def csv_field_def needs_quotes_def)

lemma writerow_row: "length fs \<ge> 2 \<Longrightarrow> writerow fs = csv_join fs @ [13, 10]"
  by (auto simp: writerow_def)

lemma length_session_row [simp]: "length (session_row s) = 4"
  by (simp add: session_row_def)

lemma readable_session_row: "reloadable s \<Longrightarrow> readable_row (session_row s)"
  by (simp add: readable_row_def reloadable_def) (simp add: session_row_def)

lemma log_file_text_log_text: "log_file_text header ss = log_text header (map session_row ss)"
  by (simp add: log_file_text_def log_text_def comp_def)

text \<open>The text of a log as lines ending in LF and rows ending in CR LF.\<close>

lemma log_text_lines:
  assumes "\<forall>fs\<in>set rows. readable_row fs"
  shows "log_text header rows =
     concat (map (\<lambda>l. l @ [10]) header) @
     concat (map (\<lambda>l. l @ [13, 10]) (map csv_join (header_row # rows)))"
proof -
  have "concat (map writerow rows) = concat (map (\<lambda>l. l @ [13, 10]) (map csv_join rows))"
    using assms by (induction rows) (simp_all add: writerow_row readable_row_def)
  then show ?thesis
    using header_row_ok by (simp add: log_text_def writerow_row)
qed

lemma rows_ok:
  assumes "\<forall>fs\<in>set rows. readable_row fs"
  shows "\<forall>fs\<in>set (header_row # rows).
           length fs \<ge> 2 \<and> (\<forall>f\<in>set fs. line_free f \<and> length f \<le> field_limit)"
  using assms header_row_ok by (auto simp: readable_row_def)

lemma file_lines_log:
  assumes "\<forall>fs\<in>set rows. readable_row fs" "\<forall>l\<in>set header. line_free l"
  shows "file_lines (log_text header rows) =
         map (\<lambda>l. l @ [10]) header @ map (\<lambda>fs. csv_join fs @ [10]) (header_row # rows)"
proof -
  have "\<forall>l\<in>set (map csv_join (header_row # rows)). line_free l"
    using rows_ok[OF assms(1)] by (auto intro: line_free_csv_join)
  from file_lines_written[OF assms(2) this] show ?thesis
    by (simp add: log_text_lines[OF assms(1)] comp_def)
qed

lemma take1_row:
  assumes "readable_row fs"
  shows "take 1 (csv_join fs @ [10]) \<noteq> ustr ''#''"
proof -
  from assms obtain f g gs where fs: "fs = f # g # gs"
    by (cases fs rule: csv_join.cases) (auto simp: readable_row_def)
  have f: "take 1 f \<noteq> ustr ''#''" using assms fs by (simp add: readable_row_def)
  show ?thesis
  proof (cases "needs_quotes f")
    case True
    then show ?thesis by (simp add: fs csv_field_def ustr_def)
  next
    case False
    then show ?thesis using f
      by (cases f) (simp_all add: fs csv_field_def ustr_def)
  qed
qed

lemma filter_rows:
  assumes "\<forall>fs\<in>set rows. readable_row fs"
  shows "filter (\<lambda>row. take 1 row \<noteq> ustr ''#'') (map (\<lambda>fs. csv_join fs @ [10]) rows) =
         map (\<lambda>fs. csv_join fs @ [10]) rows"
proof -
  have "take 1 x \<noteq> ustr ''#''" if "x \<in> set (map (\<lambda>fs. csv_join fs @ [10]) rows)" for x
  proof -
    from that obtain fs where "fs \<in> set rows" "x = csv_join fs @ [10]" by auto
    then show ?thesis using take1_row assms by blast
  qed
  then show ?thesis by (intro filter_True) blast
qed

lemma filter_header_lines:
  "filter (\<lambda>row. take 1 row \<noteq> ustr ''#'') (map (\<lambda>l. l @ [10]) (header_lines c lc tot)) = []"
  "take 1 (csv_join header_row @ [10]) \<noteq> ustr ''#''"
  by (simp_all add: header_lines_def csv_join_header_row) (simp_all add: ustr_def)

lemma filter_log_lines:
  assumes "\<forall>fs\<in>set rows. readable_row fs"
  shows "filter (\<lambda>row. take 1 row \<noteq> ustr ''#'')
           (map (\<lambda>l. l @ [10]) (header_lines c lc tot) @
            map (\<lambda>fs. csv_join fs @ [10]) (header_row # rows)) =
         map (\<lambda>fs. csv_join fs @ [10]) (header_row # rows)"
  using filter_rows[OF assms] filter_header_lines by simp

text \<open>The metadata loop reads the two header lines and stops at the header row.\<close>

lemma read_meta_log:
  "read_meta \<lparr>created = None, last_changed = None\<rparr>
     (map (\<lambda>l. l @ [10]) (header_lines c lc tot) @ (csv_join header_row @ [10]) # rest) =
   \<lparr>created = Some (strip c), last_changed = Some (strip lc)\<rparr>"
proof -
  have 1: "after_colon (ustr ''# Created: '' @ c @ [10]) = strip c"
    using after_colon_line[of "ustr ''# Created''" c] by (simp add: ustr_def isspace_def)
  have 2: "after_colon (ustr ''# Last changed: '' @ lc @ [10]) = strip lc"
    using after_colon_line[of "ustr ''# Last changed''" lc] by (simp add: ustr_def isspace_def)
  have s1: "startswith (ustr ''# Created: '' @ c @ [10]) (ustr ''# Created:'')"
    by (simp add: startswith_def ustr_def)
  have s2: "\<not> startswith (ustr ''# Last changed: '' @ lc @ [10]) (ustr ''# Created:'')"
    "startswith (ustr ''# Last changed: '' @ lc @ [10]) (ustr ''# Last changed:'')"
    by (simp_all add: startswith_def ustr_def)
  have s3: "\<not> startswith (ustr ''# Total time across all sessions (sec): '' @ t @ [10]) (ustr ''# Created:'')"
    "\<not> startswith (ustr ''# Total time across all sessions (sec): '' @ t @ [10]) (ustr ''# Last changed:'')"
    "startswith (ustr ''# Total time across all sessions (sec): '' @ t @ [10]) (ustr ''#'')" for t
    by (simp_all add: startswith_def ustr_def)
  have s4: "\<not> startswith (ustr ''# Columns: session_start, session_end, session_duration_sec, window_title'' @ [10]) (ustr ''# Created:'')"
    "\<not> startswith (ustr ''# Columns: session_start, session_end, session_duration_sec, window_title'' @ [10]) (ustr ''# Last changed:'')"
    "startswith (ustr ''# Columns: session_start, session_end, session_duration_sec, window_title'' @ [10]) (ustr ''#'')"
    by (simp_all add: startswith_def ustr_def)
  have s5: "\<not> startswith (csv_join header_row @ [10]) (ustr ''# Created:'')"
    "\<not> startswith (csv_join header_row @ [10]) (ustr ''# Last changed:'')"
    "\<not> startswith (csv_join header_row @ [10]) (ustr ''#'')"
    "strip (csv_join header_row @ [10]) \<noteq> []"
    by (simp_all add: csv_join_header_row startswith_def)
       (simp_all add: ustr_def strip_def lstrip_def rstrip_def isspace_def)
  show ?thesis
    by (simp add: header_lines_def 1 2 s1 s2 s3 s4 s5)
qed

lemma append_rows_sessions:
  "append_rows proj (map session_row ss) None st =
   Inr (st\<lparr>sessions := (sessions st)(proj := sessions st proj @ ss)\<rparr>)"
proof (induction ss arbitrary: st)
  case Nil
  then show ?case by simp
next
  case (Cons s ss)
  obtain a b d w where s: "s = \<lparr>session_start = a, session_end = b, session_duration_sec = d,
      session_window_title = w\<rparr>"
    by (cases s) auto
  have row: "session_row s = [a, b, py_str_int d, w]"
    by (simp add: session_row_def s)
  let ?st = "st\<lparr>sessions := (sessions st)(proj := sessions st proj @ [s])\<rparr>"
  have "append_rows proj (map session_row (s # ss)) None st =
        append_rows proj (map session_row ss) None ?st"
    by (simp add: row py_int_py_str_int) (simp add: s)
  also have "\<dots> = Inr (?st\<lparr>sessions := (sessions ?st)(proj := sessions ?st proj @ ss)\<rparr>)"
    by (rule Cons.IH)
  finally have f: "append_rows proj (map session_row (s # ss)) None st =
      Inr (?st\<lparr>sessions := (sessions ?st)(proj := sessions ?st proj @ ss)\<rparr>)" .
  have e: "?st\<lparr>sessions := (sessions ?st)(proj := sessions ?st proj @ ss)\<rparr> =
      st\<lparr>sessions := (sessions st)(proj := sessions st proj @ s # ss)\<rparr>"
    by simp
  show ?case using f unfolding e .
qed

lemma log_file_name_split:
  "endswith (log_file_name proj) (ustr ''_log.csv'')"
  "take (length (log_file_name proj) - 8) (log_file_name proj) = proj"
  by (simp_all add: endswith_def log_file_name_def ustr_def)

text \<open>
  Loading a log in the layout of \<open>save_session_log\<close> with readable rows: the metadata are
  those of the header, and the loop over the rows sees exactly the rows of the file.
\<close>

lemma load_log_text:
  assumes "\<forall>fs\<in>set rows. readable_row fs" "line_free c" "line_free lc"
  shows "load_log_file now (log_file_name proj, log_text (header_lines c lc tot) rows) st =
         append_rows proj rows None
           (st\<lparr>log_meta := (log_meta st)(proj \<mapsto>
                    \<lparr>created = Some (strip c), last_changed = Some (strip lc)\<rparr>)\<rparr>)"
proof -
  let ?lines = "file_lines (log_text (header_lines c lc tot) rows)"
  have lines: "?lines =
         map (\<lambda>l. l @ [10]) (header_lines c lc tot) @
         map (\<lambda>fs. csv_join fs @ [10]) (header_row # rows)"
    using assms by (intro file_lines_log line_free_header_lines)
  have rows: "csv_reader (map (\<lambda>fs. csv_join fs @ [10]) (header_row # rows)) =
      (header_row # rows, None)"
    unfolding csv_reader_def by (rule read_rows_written) (rule rows_ok[OF assms(1)])
  have meta: "read_meta \<lparr>created = None, last_changed = None\<rparr> ?lines =
      \<lparr>created = Some (strip c), last_changed = Some (strip lc)\<rparr>"
    unfolding lines using read_meta_log[of c lc tot "map (\<lambda>fs. csv_join fs @ [10]) rows"] by simp
  have rd: "csv_reader (filter (\<lambda>row. take 1 row \<noteq> ustr ''#'') ?lines) = (header_row # rows, None)"
    by (simp only: lines filter_log_lines[OF assms(1)] rows)
  have d: "drop 1 (header_row # rows) = rows" by simp
  show ?thesis
    by (simp add: load_log_file_def log_file_name_split Let_def meta rd d del: One_nat_def)
qed

lemma load_saved_log:
  assumes "\<forall>s\<in>set ss. reloadable s" "line_free c" "line_free lc"
  shows "load_log_file now (log_file_name proj, log_file_text (header_lines c lc tot) ss) st =
         Inr (st\<lparr>log_meta := (log_meta st)(proj \<mapsto>
                    \<lparr>created = Some (strip c), last_changed = Some (strip lc)\<rparr>),
                sessions := (sessions st)(proj := sessions st proj @ ss)\<rparr>)"
proof -
  have "\<forall>fs\<in>set (map session_row ss). readable_row fs"
    using assms(1) by (simp add: readable_session_row)
  from load_log_text[OF this assms(2,3)] show ?thesis
    by (simp add: log_file_text_log_text append_rows_sessions)
qed

text \<open>Loading never touches the active sessions: a new tracker has none.\<close>

lemma session_active_append_rows:
  "append_rows proj rows err st = Inr st' \<Longrightarrow> session_active st' = session_active st"
proof (induction rows arbitrary: st)
  case Nil
  then show ?case by (simp split: option.splits)
next
  case (Cons row rows)
  show ?case
  proof (cases "length row \<ge> 3")
    case False
    then show ?thesis using Cons by simp
  next
    case True
    then obtain d where d: "py_int (row ! 2) = Some d"
      using Cons.prems by (cases "py_int (row ! 2)") simp_all
    from Cons.prems True d Cons.IH show ?thesis by fastforce
  qed
qed

lemma session_active_load_log_file:
  "load_log_file now entry st = Inr st' \<Longrightarrow> session_active st' = session_active st"
  by (cases entry)
     (auto simp: load_log_file_def Let_def split: if_splits prod.splits
           dest!: session_active_append_rows)

lemma session_active_load_files:
  "load_files now entries st = Inr st' \<Longrightarrow> session_active st' = session_active st"
proof (induction entries arbitrary: st)
  case Nil
  then show ?case by simp
next
  case (Cons entry entries)
  then show ?case
    by (fastforce split: sum.splits dest: session_active_load_log_file)
qed

lemma new_tracker_no_active:
  "new_tracker now fs = Inr st \<Longrightarrow> session_active st = [] \<and> tracker_inv st"
  by (auto simp: new_tracker_def load_existing_sessions_def tracker_inv_def
      dest: session_active_load_files)

section \<open>A corrupt row\<close>

lemma append_rows_bad_duration:
  "\<exists>fs\<in>set rows. length fs \<ge> 3 \<and> py_int (fs ! 2) = None \<Longrightarrow>
   \<exists>v. append_rows proj rows err st = Inl (ValueError v)"
proof (induction rows arbitrary: st)
  case Nil
  then show ?case by simp
next
  case (Cons fs rows)
  show ?case
  proof (cases "length fs \<ge> 3 \<and> py_int (fs ! 2) = None")
    case True
    then show ?thesis by simp
  next
    case False
    then have "\<exists>fs\<in>set rows. length fs \<ge> 3 \<and> py_int (fs ! 2) = None"
      using Cons.prems by auto
    then show ?thesis using Cons.IH by (auto split: option.splits)
  qed
qed

text \<open>
  Whatever else a log in the tracker's layout contains, one row with a third column that
  is no integer makes the load raise \<open>ValueError\<close>.
\<close>

lemma non_integer_duration_aborts:
  assumes "\<forall>fs\<in>set rows. readable_row fs" "line_free c" "line_free lc"
    and "\<exists>fs\<in>set rows. length fs \<ge> 3 \<and> py_int (fs ! 2) = None"
  shows "\<exists>v. load_log_file now (log_file_name proj, log_text (header_lines c lc tot) rows) st =
             Inl (ValueError v)"
  using append_rows_bad_duration[OF assms(4)] by (simp add: load_log_text[OF assms(1-3)])

lemma corrupt_rows_readable: "\<forall>fs\<in>set corrupt_rows. readable_row fs"
  by (simp add: corrupt_rows_def readable_row_def field_limit_def ustr_def)

text \<open>
  C1, at a failing input: the folder holds one log, written by the tracker, in which the
  duration of the second of three rows is the word \<open>sixty\<close>. The construction of the
  tracker does not skip the row: \<open>int(row[2])\<close> raises \<open>ValueError\<close> and no tracker
  exists afterwards, so the two valid rows are lost to the run as well.
\<close>

theorem corrupt_row_aborts_load:
  "new_tracker (at_10h 0 0) [(ustr ''ProjA_log.csv'', corrupt_log)] =
     Inl (ValueError (ustr ''sixty''))"
proof -
  have n: "ustr ''ProjA_log.csv'' = log_file_name (ustr ''ProjA'')"
    by (simp add: log_file_name_def ustr_def)
  have i: "py_int (ustr ''60'') = Some 60" "py_int (ustr ''sixty'') = None"
    by (simp_all add: py_int_def strip_def lstrip_def rstrip_def isspace_def ustr_def
        parse_unsigned_def is_digit_def)
  have lf: "line_free (ustr ''2024-01-01 09:00:00'')" "line_free (ustr ''2024-01-01 09:21:00'')"
    by (simp_all add: ustr_def)
  have "load_log_file (at_10h 0 0) (log_file_name (ustr ''ProjA''), corrupt_log) st =
      Inl (ValueError (ustr ''sixty''))" for st
    unfolding corrupt_log_def load_log_text[OF corrupt_rows_readable lf]
    by (simp add: corrupt_rows_def i)
  then show ?thesis
    by (simp add: new_tracker_def load_existing_sessions_def n)
qed

section \<open>Saving, loading and saving again\<close>

lemma cr_tracker_state:
  "session_active cr_tracker = [] \<and>
   sessions cr_tracker (ustr ''ProjA'') =
     [\<lparr>session_start = ustr ''2024-01-01 10:00:00'', session_end = ustr ''2024-01-01 10:01:00'',
       session_duration_sec = 60, session_window_title = cr_title\<rparr>] \<and>
   files cr_tracker =
     [(log_file_name (ustr ''ProjA''),
       log_file_text
         (header_lines (ustr ''2024-01-01 10:00:00'') (ustr ''2024-01-01 10:01:00'') 60)
         [\<lparr>session_start = ustr ''2024-01-01 10:00:00'', session_end = ustr ''2024-01-01 10:01:00'',
           session_duration_sec = 60, session_window_title = cr_title\<rparr>])]"
proof -
  have tr: "is_tracked cr_title" and ex: "extract_project_name cr_title = ustr ''ProjA''"
    by (simp_all add: cr_title_def extract_project_name_def project_name_sanitized_def
        re_search_group1_def ustr_def is_dash_def isspace_def strip_def lstrip_def rstrip_def
        lstrip_chars_def re_sub_illegal_def illegal_chars_def is_tracked_def
        get_app_name_from_title_def app_keywords_def lower_def tracked_apps_def)
  have t: "strftime (at_10h 0 0) = ustr ''2024-01-01 10:00:00''"
    "strftime (at_10h 1 0) = ustr ''2024-01-01 10:01:00''"
    "elapsed_seconds (at_10h 1 0) (at_10h 0 0) = 60"
    by (simp_all add: strftime_def zfill_def dec.simps ustr_def at_10h_def elapsed_seconds_def
        to_microseconds_def ymd2ord_def days_before_year_def days_before_month_def is_leap_def)
  have ne: "cr_title \<noteq> []" by (simp add: cr_title_def)
  show ?thesis
    unfolding cr_tracker_def
    by (simp add: poll_cycle_def get_all_open_windows_def ne tr ex on_window_open_def
        on_window_close_def save_session_log_def created_or_def total_duration_def t
        fresh_tracker_def Let_def del: One_nat_def)
qed

lemma universal_newlines_crlf_lines_tail:
  "\<forall>l\<in>set ls. line_free l \<Longrightarrow>
   universal_newlines (concat (map (\<lambda>l. l @ [13, 10]) ls) @ t) =
   concat (map (\<lambda>l. l @ [10]) ls) @ universal_newlines t"
proof (induction ls)
  case Nil
  then show ?case by simp
next
  case (Cons l ls)
  then have "13 \<notin> set l" by (simp add: line_free_def)
  then have "universal_newlines (l @ 13 # 10 # concat (map (\<lambda>l. l @ [13, 10]) ls) @ t) =
      l @ universal_newlines (13 # 10 # concat (map (\<lambda>l. l @ [13, 10]) ls) @ t)"
    by (rule universal_newlines_append)
  then show ?case using Cons by simp
qed

lemma split_lines_lines_tail:
  "\<forall>l\<in>set ls. line_free l \<Longrightarrow>
   split_lines [] (concat (map (\<lambda>l. l @ [10]) ls) @ t) = map (\<lambda>l. l @ [10]) ls @ split_lines [] t"
proof (induction ls)
  case Nil
  then show ?case by simp
next
  case (Cons l ls)
  then have "10 \<notin> set l" by (simp add: line_free_def)
  from split_lines_line[OF this, of "[]" "concat (map (\<lambda>l. l @ [10]) ls) @ t"] Cons
  show ?case by simp
qed

text \<open>The lines of a log whose last row contains a carriage return.\<close>

lemma cr_log_lines:
  "file_lines (log_file_text
         (header_lines (ustr ''2024-01-01 10:00:00'') (ustr ''2024-01-01 10:01:00'') 60)
         [\<lparr>session_start = ustr ''2024-01-01 10:00:00'', session_end = ustr ''2024-01-01 10:01:00'',
           session_duration_sec = 60, session_window_title = cr_title\<rparr>]) =
   map (\<lambda>l. l @ [10])
     (header_lines (ustr ''2024-01-01 10:00:00'') (ustr ''2024-01-01 10:01:00'') 60) @
   [csv_join header_row @ [10],
    (ustr ''2024-01-01 10:00:00,2024-01-01 10:01:00,60,'' @ 34 # ustr ''ProjA - Blender'') @ [10],
    (ustr ''scene'' @ [34]) @ [10]]"
proof -
  let ?hs = "header_lines (ustr ''2024-01-01 10:00:00'') (ustr ''2024-01-01 10:01:00'') 60"
  let ?row = "(ustr ''2024-01-01 10:00:00,2024-01-01 10:01:00,60,'' @ 34 # ustr ''ProjA - Blender'') @ [13] @
      (ustr ''scene'' @ [34]) @ [13, 10]"
  have hs: "\<forall>l\<in>set ?hs. line_free l"
    by (rule line_free_header_lines) (simp_all add: ustr_def)
  have hr: "\<forall>l\<in>set [csv_join header_row]. line_free l"
    using header_row_ok by (simp add: line_free_csv_join)
  have ltx: "log_file_text ?hs
         [\<lparr>session_start = ustr ''2024-01-01 10:00:00'', session_end = ustr ''2024-01-01 10:01:00'',
           session_duration_sec = 60, session_window_title = cr_title\<rparr>] =
      concat (map (\<lambda>l. l @ [10]) ?hs) @ concat (map (\<lambda>l. l @ [13, 10]) [csv_join header_row]) @ ?row"
    using header_row_ok
    by (simp add: log_file_text_def writerow_row session_row_def)
       (simp add: cr_title_def ustr_def csv_field_def needs_quotes_def py_str_int_def dec.simps)
  have u: "universal_newlines ?row =
      (ustr ''2024-01-01 10:00:00,2024-01-01 10:01:00,60,'' @ 34 # ustr ''ProjA - Blender'') @ [10] @
      (ustr ''scene'' @ [34]) @ [10]"
    by (simp add: ustr_def)
  have s: "split_lines [] ((ustr ''2024-01-01 10:00:00,2024-01-01 10:01:00,60,'' @ 34 # ustr ''ProjA - Blender'') @ [10] @
      (ustr ''scene'' @ [34]) @ [10]) =
      [(ustr ''2024-01-01 10:00:00,2024-01-01 10:01:00,60,'' @ 34 # ustr ''ProjA - Blender'') @ [10],
       (ustr ''scene'' @ [34]) @ [10]]"
    by (simp add: ustr_def)
  show ?thesis
    unfolding ltx file_lines_def
    by (simp only: universal_newlines_lf_lines[OF hs] universal_newlines_crlf_lines_tail[OF hr] u
        split_lines_lines_tail[OF hs] split_lines_lines_tail[OF hr] s)
       simp
qed

lemma cr_rows:
  "read_rows parse_reset
     [(ustr ''2024-01-01 10:00:00,2024-01-01 10:01:00,60,'' @ 34 # ustr ''ProjA - Blender'') @ [10],
      (ustr ''scene'' @ [34]) @ [10]] =
   ([[ustr ''2024-01-01 10:00:00'', ustr ''2024-01-01 10:01:00'', ustr ''60'',
      ustr ''ProjA - Blender'' @ [10] @ ustr ''scene'']], None)"
  by (simp add: feed_line_def parse_process_char_def start_field_def parse_add_char_def
      parse_save_field_def parse_reset_def field_limit_def ustr_def)

lemma cr_reload:
  "reloaded_sessions (at_10h 5 0) (files cr_tracker) (ustr ''ProjA'') =
     Some [\<lparr>session_start = ustr ''2024-01-01 10:00:00'', session_end = ustr ''2024-01-01 10:01:00'',
            session_duration_sec = 60,
            session_window_title = ustr ''ProjA - Blender'' @ [10] @ ustr ''scene''\<rparr>]"
proof -
  let ?hs = "header_lines (ustr ''2024-01-01 10:00:00'') (ustr ''2024-01-01 10:01:00'') 60"
  let ?s = "\<lparr>session_start = ustr ''2024-01-01 10:00:00'', session_end = ustr ''2024-01-01 10:01:00'',
           session_duration_sec = 60, session_window_title = cr_title\<rparr>"
  let ?l1 = "(ustr ''2024-01-01 10:00:00,2024-01-01 10:01:00,60,'' @ 34 # ustr ''ProjA - Blender'') @ [10]"
  let ?l2 = "(ustr ''scene'' @ [34]) @ [10]"
  let ?lines = "file_lines (log_file_text ?hs [?s])"
  have lines: "?lines = map (\<lambda>l. l @ [10]) ?hs @ [csv_join header_row @ [10], ?l1, ?l2]"
    by (rule cr_log_lines)
  have meta: "read_meta \<lparr>created = None, last_changed = None\<rparr> ?lines =
      \<lparr>created = Some (strip (ustr ''2024-01-01 10:00:00'')),
       last_changed = Some (strip (ustr ''2024-01-01 10:01:00''))\<rparr>"
    unfolding lines using read_meta_log[of _ _ 60 "[?l1, ?l2]"] by simp
  have keep: "take 1 ?l1 \<noteq> ustr ''#''" "take 1 ?l2 \<noteq> ustr ''#''"
    by (simp_all add: ustr_def)
  have flt: "filter (\<lambda>row. take 1 row \<noteq> ustr ''#'') ?lines = [csv_join header_row @ [10], ?l1, ?l2]"
    unfolding lines using filter_header_lines keep by (simp del: One_nat_def)
  have hd: "feed_line parse_reset (csv_join header_row @ [10]) =
      Inr \<lparr>state = START_RECORD, field = [], field_list = header_row\<rparr>"
    using header_row_ok by (intro feed_line_row) simp_all
  have rr: "read_rows parse_reset ((csv_join header_row @ [10]) # rest) =
      (case read_rows parse_reset rest of (rows, e) \<Rightarrow> (header_row # rows, e))" for rest
    by (simp add: hd)
  have rd: "csv_reader (filter (\<lambda>row. take 1 row \<noteq> ustr ''#'') ?lines) =
      ([header_row, [ustr ''2024-01-01 10:00:00'', ustr ''2024-01-01 10:01:00'', ustr ''60'',
      ustr ''ProjA - Blender'' @ [10] @ ustr ''scene'']], None)"
    unfolding flt csv_reader_def rr cr_rows by simp
  have i: "py_int (ustr ''60'') = Some 60"
    by (simp add: py_int_def strip_def lstrip_def rstrip_def isspace_def ustr_def
        parse_unsigned_def is_digit_def)
  have "load_log_file (at_10h 5 0) (log_file_name (ustr ''ProjA''), log_file_text ?hs [?s])
      \<lparr>session_active = [], sessions = (\<lambda>_. []), log_meta = Map.empty,
        files = [(log_file_name (ustr ''ProjA''), log_file_text ?hs [?s])]\<rparr> =
    Inr (\<lparr>session_active = [],
          sessions = (\<lambda>_. [])(ustr ''ProjA'' :=
            [\<lparr>session_start = ustr ''2024-01-01 10:00:00'', session_end = ustr ''2024-01-01 10:01:00'',
              session_duration_sec = 60,
              session_window_title = ustr ''ProjA - Blender'' @ [10] @ ustr ''scene''\<rparr>]),
          log_meta = [ustr ''ProjA'' \<mapsto> \<lparr>created = Some (strip (ustr ''2024-01-01 10:00:00'')),
             last_changed = Some (strip (ustr ''2024-01-01 10:01:00''))\<rparr>],
          files = [(log_file_name (ustr ''ProjA''), log_file_text ?hs [?s])]\<rparr>)"
    by (simp only: load_log_file_def prod.case log_file_name_split if_True Let_def meta rd)
       (simp add: i)
  then show ?thesis
    using cr_tracker_state
    by (simp add: reloaded_sessions_def new_tracker_def load_existing_sessions_def)
qed

text \<open>
  C3, as stated, on a history the tracker itself produced: a window whose title holds a
  carriage return behind the application name was open from 10:00:00 to 10:01:00, and
  the tracker saved the session. A tracker started on the folder afterwards does not get
  the same session list: the file is read with universal newlines, so the title comes
  back with a line feed in place of the carriage return.
\<close>

theorem reload_counterexample:
  "reloaded_sessions (at_10h 5 0) (files cr_tracker) (ustr ''ProjA'') \<noteq>
     Some (sessions cr_tracker (ustr ''ProjA''))"
proof -
  have a: "sessions cr_tracker (ustr ''ProjA'') =
     [\<lparr>session_start = ustr ''2024-01-01 10:00:00'', session_end = ustr ''2024-01-01 10:01:00'',
       session_duration_sec = 60, session_window_title = cr_title\<rparr>]"
    using cr_tracker_state by blast
  have b: "ustr ''ProjA - Blender'' @ [10] @ ustr ''scene'' \<noteq> cr_title"
    by (simp add: cr_title_def ustr_def)
  show ?thesis unfolding cr_reload a using b by simp
qed

text \<open>For a project without sessions \<open>save_session_log\<close> returns at once: nothing is written.\<close>

lemma save_empty_history: "sessions st proj = [] \<Longrightarrow> save_session_log now proj st = st"
  by (simp add: save_session_log_def)

lemma save_session_log_effect:
  assumes "sessions st proj \<noteq> []"
  shows "persisted_log (save_session_log now proj st) proj =
           Some (log_file_text
             (header_lines (created_or st proj (session_start (hd (sessions st proj))))
                (strftime now) (total_duration (sessions st proj)))
             (sessions st proj))"
    and "log_meta (save_session_log now proj st) proj =
           Some \<lparr>created = Some (created_or st proj (session_start (hd (sessions st proj)))),
                 last_changed = Some (strftime now)\<rparr>"
  using assms by (simp_all add: persisted_save log_meta_save saved_log_text_def)

text \<open>
  C3 (amended): for a project history with at least one session, in which no start, end
  or window title contains a carriage return or a line feed (nor exceeds the reader's
  field limit) and no start begins with \<open>#\<close>, and whose creation time \<open>c\<close> is free of
  line breaks and of surrounding whitespace: persisting writes the header with \<open>c\<close> and
  with the sum of the session durations as total; a tracker started on the written file
  holds the same ordered session list and the same creation time; and persisting again
  from there writes the same creation time, the same total and the same rows, only the
  time of the last change being new.
\<close>

theorem reload_idempotent:
  assumes "sessions st proj \<noteq> []"
    and "\<forall>s\<in>set (sessions st proj). reloadable s"
    and "c = created_or st proj (session_start (hd (sessions st proj)))"
    and "line_free c" and "strip c = c"
  shows "\<exists>st2.
     persisted_log (save_session_log now1 proj st) proj =
       Some (log_file_text
         (header_lines c (strftime now1) (sum_list (map session_duration_sec (sessions st proj))))
         (sessions st proj)) \<and>
     map_option created (log_meta (save_session_log now1 proj st) proj) = Some (Some c) \<and>
     new_tracker now2
       [(log_file_name proj,
         log_file_text
           (header_lines c (strftime now1) (sum_list (map session_duration_sec (sessions st proj))))
           (sessions st proj))] = Inr st2 \<and>
     sessions st2 proj = sessions st proj \<and>
     map_option created (log_meta st2 proj) = Some (Some c) \<and>
     persisted_log (save_session_log now3 proj st2) proj =
       Some (log_file_text
         (header_lines c (strftime now3) (sum_list (map session_duration_sec (sessions st proj))))
         (sessions st proj))"
proof -
  let ?ss = "sessions st proj"
  let ?text = "log_file_text (header_lines c (strftime now1) (total_duration ?ss)) ?ss"
  let ?st0 = "\<lparr>session_active = [], sessions = (\<lambda>_. []), log_meta = Map.empty,
      files = [(log_file_name proj, ?text)]\<rparr>"
  define st2 where "st2 = ?st0\<lparr>log_meta := (log_meta ?st0)(proj \<mapsto>
      \<lparr>created = Some (strip c), last_changed = Some (strip (strftime now1))\<rparr>),
      sessions := (sessions ?st0)(proj := sessions ?st0 proj @ ?ss)\<rparr>"
  have 1: "persisted_log (save_session_log now1 proj st) proj = Some ?text"
    and 2: "map_option created (log_meta (save_session_log now1 proj st) proj) = Some (Some c)"
    using save_session_log_effect[OF assms(1), of now1] assms(3) by simp_all
  have "load_log_file now2 (log_file_name proj, ?text) ?st0 = Inr st2"
    unfolding st2_def using assms(2,4) line_free_strftime by (rule load_saved_log)
  then have 3: "new_tracker now2 [(log_file_name proj, ?text)] = Inr st2"
    by (simp add: new_tracker_def load_existing_sessions_def)
  have 4: "sessions st2 proj = ?ss" by (simp add: st2_def)
  have 5: "map_option created (log_meta st2 proj) = Some (Some c)"
    using assms(5) by (simp add: st2_def)
  have c2: "created_or st2 proj x = c" for x
    using assms(5) by (simp add: created_or_def st2_def)
  have ne: "sessions st2 proj \<noteq> []" using 4 assms(1) by simp
  have 6: "persisted_log (save_session_log now3 proj st2) proj =
      Some (log_file_text (header_lines c (strftime now3) (total_duration ?ss)) ?ss)"
    using save_session_log_effect(1)[OF ne, of now3] by (simp add: 4 c2)
  show ?thesis
    using 1 2 3 4 5 6 by (intro exI[of _ st2]) (simp add: total_duration_def)
qed

theorem reload_idempotent_witness:
  "\<exists>st2.
     persisted_log (save_session_log (at_10h 2 0) (ustr ''ProjA'') proj_a_tracker) (ustr ''ProjA'') =
       Some (log_file_text
         (header_lines (ustr ''2024-01-01 10:00:00'') (strftime (at_10h 2 0)) 60) [proj_a_session]) \<and>
     new_tracker (at_10h 5 0)
       [(log_file_name (ustr ''ProjA''),
         log_file_text
           (header_lines (ustr ''2024-01-01 10:00:00'') (strftime (at_10h 2 0)) 60)
           [proj_a_session])] = Inr st2 \<and>
     sessions st2 (ustr ''ProjA'') = [proj_a_session] \<and>
     map_option created (log_meta st2 (ustr ''ProjA'')) = Some (Some (ustr ''2024-01-01 10:00:00'')) \<and>
     persisted_log (save_session_log (at_10h 9 0) (ustr ''ProjA'') st2) (ustr ''ProjA'') =
       Some (log_file_text
         (header_lines (ustr ''2024-01-01 10:00:00'') (strftime (at_10h 9 0)) 60) [proj_a_session])"
proof -
  have s: "sessions proj_a_tracker (ustr ''ProjA'') = [proj_a_session]"
    by (simp add: proj_a_tracker_def fresh_tracker_def)
  have h1: "sessions proj_a_tracker (ustr ''ProjA'') \<noteq> []" by (simp add: s)
  have p60: "py_str_int 60 = ustr ''60''"
    by (simp add: py_str_int_def dec.simps ustr_def)
  have r: "session_row proj_a_session =
      [ustr ''2024-01-01 10:00:00'', ustr ''2024-01-01 10:01:00'', ustr ''60'',
       ustr ''ProjA - Blender'']"
    by (simp add: session_row_def proj_a_session_def p60)
  have h2: "\<forall>s\<in>set (sessions proj_a_tracker (ustr ''ProjA'')). reloadable s"
    by (simp add: s reloadable_def r field_limit_def) (simp add: ustr_def proj_a_session_def)
  have h3: "ustr ''2024-01-01 10:00:00'' =
      created_or proj_a_tracker (ustr ''ProjA'')
        (session_start (hd (sessions proj_a_tracker (ustr ''ProjA''))))"
    by (simp add: s created_or_def proj_a_tracker_def fresh_tracker_def proj_a_session_def)
  have h4: "line_free (ustr ''2024-01-01 10:00:00'')" by (simp add: ustr_def line_free_def)
  have h5: "strip (ustr ''2024-01-01 10:00:00'') = ustr ''2024-01-01 10:00:00''"
    by (simp add: ustr_def strip_def lstrip_def rstrip_def isspace_def)
  have d: "sum_list (map session_duration_sec [proj_a_session]) = 60"
    by (simp add: proj_a_session_def)
  from reload_idempotent[OF h1 h2 h3 h4 h5, of "at_10h 2 0" "at_10h 5 0" "at_10h 9 0"]
  show ?thesis unfolding s d by blast
qed

section \<open>Shutdown\<close>







end
